theory Spec2Isabelle
  imports Main "HOL-Library.Word"
begin

unbundle bit_operations_syntax

section \<open>resourceLib.h: hash-indexed resource table with linear hashing\<close>

text \<open>
  The development follows \<^verbatim>\<open>src/libCom/cxxTemplates/resourceLib.h\<close>.
  Machine integers: \<^verbatim>\<open>unsigned\<close> is a 32-bit word, \<^verbatim>\<open>unsigned char\<close> an 8-bit word and
  \<^verbatim>\<open>resTableIndex\<close> (\<^verbatim>\<open>size_t\<close>) a 64-bit word, so every \<open>+\<close>, \<open>-\<close> and \<open>*\<close> on them
  wraps as in C++. Template parameters that are only compared and halved
  (\<^verbatim>\<open>MIN_INDEX_WIDTH\<close>, \<^verbatim>\<open>MAX_ID_WIDTH\<close>) are natural numbers.
\<close>

type_synonym unsigned = "32 word"
type_synonym uchar = "8 word"
type_synonym resTableIndex = "64 word"

subsection \<open>integerHash\<close>

text \<open>
  The \<^verbatim>\<open>do { width >>= 1u; hashid ^= hashid>>width; } while (width>MIN_INDEX_WIDTH)\<close> loop.
  The body runs before the test. A shift count of 64 or more is undefined in C++;
  \<open>drop_bit\<close> yields 0 there, so statements about the loop keep \<open>MAX_ID_WIDTH div 2 < 64\<close>.
\<close>

function integerHash_loop :: "nat \<Rightarrow> nat \<Rightarrow> resTableIndex \<Rightarrow> resTableIndex" where
  "integerHash_loop MIN_INDEX_WIDTH width hashid =
     (if width div 2 > MIN_INDEX_WIDTH
      then integerHash_loop MIN_INDEX_WIDTH (width div 2)
             (hashid XOR drop_bit (width div 2) hashid)
      else hashid XOR drop_bit (width div 2) hashid)"
  by pat_completeness auto
termination
  by (relation "measure (\<lambda>(m, w, h). w)") auto

declare integerHash_loop.simps [simp del]

text \<open>\<^verbatim>\<open>resTableIndex hashid = static_cast <resTableIndex> ( id )\<close> for an unsigned \<^verbatim>\<open>T\<close>.\<close>

definition integerHash :: "nat \<Rightarrow> nat \<Rightarrow> 'a::len word \<Rightarrow> resTableIndex" where
  "integerHash MIN_INDEX_WIDTH MAX_ID_WIDTH idv =
     integerHash_loop MIN_INDEX_WIDTH MAX_ID_WIDTH (ucast idv)"

subsection \<open>stringId\<close>

text \<open>
  A \<^verbatim>\<open>const char *\<close> is \<open>None\<close> when it is the null pointer and \<open>Some bs\<close> when it points at
  the bytes \<open>bs\<close> followed by the terminating NUL. Reading stops at the first zero byte,
  whether it is inside \<open>bs\<close> or the terminator after it.
\<close>

type_synonym cstring = "uchar list option"

definition fastHashPermutedIndexSpace :: "uchar list" where
  "fastHashPermutedIndexSpace =
   [ 39,159,180,252, 71,  6, 13,164,232, 35,226,155, 98,120,154, 69,
    157, 24,137, 29,147, 78,121, 85,112,  8,248,130, 55,117,190,160,
    176,131,228, 64,211,106, 38, 27,140, 30, 88,210,227,104, 84, 77,
     75,107,169,138,195,184, 70, 90, 61,166,  7,244,165,108,219, 51,
      9,139,209, 40, 31,202, 58,179,116, 33,207,146, 76, 60,242,124,
    254,197, 80,167,153,145,129,233,132, 48,246, 86,156,177, 36,187,
     45,  1, 96, 18, 19, 62,185,234, 99, 16,218, 95,128,224,123,253,
     42,109,  4,247, 72,  5,151,136,  0,152,148,127,204,133, 17, 14,
    182,217, 54,199,119,174, 82, 57,215, 41,114,208,206,110,239, 23,
    189, 15,  3, 22,188, 79,113,172, 28,  2,222, 21,251,225,237,105,
    102, 32, 56,181,126, 83,230, 53,158, 52, 59,213,118,100, 67,142,
    220,170,144,115,205, 26,125,168,249, 66,175, 97,255, 92,229, 91,
    214,236,178,243, 46, 44,201,250,135,186,150,221,163,216,162, 43,
     11,101, 34, 37,194, 25, 50, 12, 87,198,173,240,193,171,143,231,
    111,141,191,103, 74,245,223, 20,161,235,122, 63, 89,149, 73,238,
    134, 68, 93,183,241, 81,196, 49,192, 65,212, 94,203, 10,200, 47]"

text \<open>\<^verbatim>\<open>fastHashPermutedIndexSpace [ h ^ c ]\<close>, widened back to \<^verbatim>\<open>unsigned\<close>.\<close>

definition permuted :: "unsigned \<Rightarrow> uchar \<Rightarrow> unsigned" where
  "permuted h c = ucast (fastHashPermutedIndexSpace ! unat (h XOR ucast c))"

text \<open>
  The \<^verbatim>\<open>while ( true )\<close> loop of \<^verbatim>\<open>stringId::hash\<close>, four reads per round, each followed
  by its \<^verbatim>\<open>if ( c == 0 ) break\<close>. Running off the end of \<open>bs\<close> reads the terminator.
\<close>

fun stringId_hash_loop ::
  "uchar list \<Rightarrow> unsigned \<Rightarrow> unsigned \<Rightarrow> unsigned \<Rightarrow> unsigned
     \<Rightarrow> unsigned \<times> unsigned \<times> unsigned \<times> unsigned" where
  "stringId_hash_loop [] h0 h1 h2 h3 = (h0, h1, h2, h3)"
| "stringId_hash_loop [c0] h0 h1 h2 h3 =
     (if c0 = 0 then (h0, h1, h2, h3) else (permuted h0 c0, h1, h2, h3))"
| "stringId_hash_loop [c0, c1] h0 h1 h2 h3 =
     (if c0 = 0 then (h0, h1, h2, h3)
      else if c1 = 0 then (permuted h0 c0, h1, h2, h3)
      else (permuted h0 c0, permuted h1 c1, h2, h3))"
| "stringId_hash_loop [c0, c1, c2] h0 h1 h2 h3 =
     (if c0 = 0 then (h0, h1, h2, h3)
      else if c1 = 0 then (permuted h0 c0, h1, h2, h3)
      else if c2 = 0 then (permuted h0 c0, permuted h1 c1, h2, h3)
      else (permuted h0 c0, permuted h1 c1, permuted h2 c2, h3))"
| "stringId_hash_loop (c0 # c1 # c2 # c3 # rest) h0 h1 h2 h3 =
     (if c0 = 0 then (h0, h1, h2, h3)
      else if c1 = 0 then (permuted h0 c0, h1, h2, h3)
      else if c2 = 0 then (permuted h0 c0, permuted h1 c1, h2, h3)
      else if c3 = 0 then (permuted h0 c0, permuted h1 c1, permuted h2 c2, h3)
      else stringId_hash_loop rest
             (permuted h0 c0) (permuted h1 c1) (permuted h2 c2) (permuted h3 c3))"

text \<open>\<^verbatim>\<open>static const unsigned stringIdMinIndexWidth = CHAR_BIT\<close> and
  \<^verbatim>\<open>static const unsigned stringIdMaxIndexWidth = sizeof ( unsigned )\<close>: the second is a
  byte count, 4 for a 32-bit \<^verbatim>\<open>unsigned\<close>.\<close>

definition stringIdMinIndexWidth :: nat where
  "stringIdMinIndexWidth = 8"

definition stringIdMaxIndexWidth :: nat where
  "stringIdMaxIndexWidth = 4"

definition stringId_hash :: "cstring \<Rightarrow> resTableIndex" where
  "stringId_hash pStr =
     (case pStr of
        None \<Rightarrow> 0
      | Some bs \<Rightarrow>
          (case stringId_hash_loop bs 0 0 0 0 of
             (h0, h1, h2, h3) \<Rightarrow>
               integerHash stringIdMinIndexWidth stringIdMaxIndexWidth
                 (push_bit 24 h3 OR push_bit 16 h2 OR push_bit 8 h1 OR h0)))"

text \<open>\<^verbatim>\<open>strcmp(a, b) == 0\<close>: the bytes before the first NUL agree.\<close>

definition strcmp_eq :: "uchar list \<Rightarrow> uchar list \<Rightarrow> bool" where
  "strcmp_eq a b = (takeWhile (\<lambda>c. c \<noteq> 0) a = takeWhile (\<lambda>c. c \<noteq> 0) b)"

definition stringId_eq :: "cstring \<Rightarrow> cstring \<Rightarrow> bool" where
  "stringId_eq this idIn =
     (case (this, idIn) of
        (Some a, Some b) \<Rightarrow> strcmp_eq a b
      | _ \<Rightarrow> False)"


subsection \<open>The hash of the specification's words\<close>

text \<open>
  Section 4.3 of the specification: the bytes before the NUL go round-robin into four
  accumulators, and the composite passes through the integer mixer with
  \<open>MIN_INDEX_WIDTH = 8\<close> and \<open>MAX_ID_WIDTH = 32\<close>. This definition follows those words; it
  is compared with \<open>stringId_hash\<close> above, which follows the source.
\<close>

fun spec_lanes ::
  "nat \<Rightarrow> uchar list \<Rightarrow> unsigned \<times> unsigned \<times> unsigned \<times> unsigned
     \<Rightarrow> unsigned \<times> unsigned \<times> unsigned \<times> unsigned" where
  "spec_lanes i [] hs = hs"
| "spec_lanes i (c # cs) (h0, h1, h2, h3) =
     (if c = 0 then (h0, h1, h2, h3)
      else spec_lanes (i + 1) cs
             (if i mod 4 = 0 then (permuted h0 c, h1, h2, h3)
              else if i mod 4 = 1 then (h0, permuted h1 c, h2, h3)
              else if i mod 4 = 2 then (h0, h1, permuted h2 c, h3)
              else (h0, h1, h2, permuted h3 c)))"

definition composite :: "unsigned \<times> unsigned \<times> unsigned \<times> unsigned \<Rightarrow> unsigned" where
  "composite hs =
     (case hs of (h0, h1, h2, h3) \<Rightarrow>
        push_bit 24 h3 OR push_bit 16 h2 OR push_bit 8 h1 OR h0)"

definition spec_stringId_hash :: "cstring \<Rightarrow> resTableIndex" where
  "spec_stringId_hash pStr =
     (case pStr of
        None \<Rightarrow> 0
      | Some bs \<Rightarrow> integerHash 8 32 (composite (spec_lanes 0 bs (0, 0, 0, 0))))"


section \<open>The resource table\<close>

subsection \<open>Identifier classes and records\<close>

text \<open>
  What \<^verbatim>\<open>resTable <T, ID>\<close> asks of its \<^verbatim>\<open>ID\<close> parameter: \<^verbatim>\<open>hash ()\<close>, \<^verbatim>\<open>operator ==\<close> and
  \<^verbatim>\<open>minIndexBitWidth ()\<close>. (\<^verbatim>\<open>maxIndexBitWidth ()\<close> is declared by every identifier class
  but never called by the table.)
\<close>

record 'id idClass =
  idHash :: "'id \<Rightarrow> resTableIndex"
  idEq :: "'id \<Rightarrow> 'id \<Rightarrow> bool"
  minIndexBitWidth :: nat

text \<open>\<^verbatim>\<open>intId <T, MIN_INDEX_WIDTH, MAX_ID_WIDTH>\<close>: equality of the integers, the mixer as hash.\<close>

definition intId :: "nat \<Rightarrow> nat \<Rightarrow> ('a::len word) idClass" where
  "intId MIN_INDEX_WIDTH MAX_ID_WIDTH =
     \<lparr>idHash = integerHash MIN_INDEX_WIDTH MAX_ID_WIDTH,
      idEq = (\<lambda>this idIn. this = idIn),
      minIndexBitWidth = MIN_INDEX_WIDTH\<rparr>"

text \<open>\<^verbatim>\<open>class chronIntId : public intId<unsigned, 8u, sizeof(unsigned)*CHAR_BIT>\<close>\<close>

definition chronIntId :: "unsigned idClass" where
  "chronIntId = intId 8 32"

definition stringId :: "cstring idClass" where
  "stringId =
     \<lparr>idHash = stringId_hash, idEq = stringId_eq, minIndexBitWidth = stringIdMinIndexWidth\<rparr>"

text \<open>
  A record of type \<^verbatim>\<open>T\<close> derives from \<^verbatim>\<open>ID\<close> and from \<^verbatim>\<open>tsSLNode<T>\<close>. It is modelled by the
  address of the object, which tells two records with equal identifiers apart, and its
  identifier; its link field is its position in a chain.
\<close>

datatype 'id res = Res (resAddr: nat) (resId: 'id)

subsection \<open>Chains\<close>

text \<open>
  Modelled from the spec: \<^verbatim>\<open>tsSLList.h\<close> is included by \<^verbatim>\<open>resourceLib.h\<close> but is not among
  the sources. Section 4.1 of the specification gives the chain as an intrusive singly
  linked list with push-front, pop-front, unlink-after-predecessor and forward iteration.
  A chain is the list of its records, head first: \<^verbatim>\<open>add\<close> is the push-front below, and
  \<^verbatim>\<open>get ()\<close>, \<^verbatim>\<open>remove ( *pPrev )\<close> and the iterators are pattern matching on the list.
\<close>

definition tsSLList_add :: "'a \<Rightarrow> 'a list \<Rightarrow> 'a list" where
  "tsSLList_add item list = item # list"

text \<open>
  Modelled from the spec: the constructor \<^verbatim>\<open>tsSLList<T> ( tsSLList<T> & )\<close> of the absent
  \<^verbatim>\<open>tsSLList.h\<close>. Section 4.5 of the specification: copying a chain head transfers the
  chain, and the split step detaches the chain into a temporary. The result is the new
  chain and what is left in the argument.
\<close>

definition tsSLList_transfer :: "'a list \<Rightarrow> 'a list \<times> 'a list" where
  "tsSLList_transfer listIn = (listIn, [])"

subsection \<open>resTable\<close>

record 'id resTable =
  pTable :: "'id res list list"
  nextSplitIndex :: unsigned
  hashIxMask :: unsigned
  hashIxSplitMask :: unsigned
  nInUse :: unsigned

datatype error = dynamicMemoryAllocationFailed

text \<open>
  \<^verbatim>\<open>resTable<T,ID>::resTable ()\<close>. \<open>allocOk\<close> says whether the allocation of the chain heads
  succeeds. The source computes \<^verbatim>\<open>( 1 << ID::minIndexBitWidth() ) - 1\<close> on \<^verbatim>\<open>int\<close>; it agrees
  with the 32-bit word below as long as \<open>minIndexBitWidth + 1 \<le> 30\<close>.
\<close>

definition resTable_ctor :: "'id idClass \<Rightarrow> bool \<Rightarrow> error + 'id resTable" where
  "resTable_ctor C allocOk =
     (let mask0 = push_bit (minIndexBitWidth C) 1 - 1;
          splitMask0 = push_bit (minIndexBitWidth C + 1) 1 - 1;
          newTableSize = splitMask0 + 1
      in if \<not> allocOk then Inl dynamicMemoryAllocationFailed
         else Inr \<lparr>pTable = replicate (unat newTableSize) [],
                   nextSplitIndex = 0,
                   hashIxMask = mask0,
                   hashIxSplitMask = splitMask0,
                   nInUse = 0\<rparr>)"

text \<open>
  \<^verbatim>\<open>resTable<T,ID>::hash\<close>: the masks are widened from \<^verbatim>\<open>unsigned\<close> to \<^verbatim>\<open>resTableIndex\<close>. The
  result indexes \<^verbatim>\<open>pTable\<close>; an index beyond the allocated chain heads would be undefined
  behaviour in the source, and \<open>shape_hash_range\<close> below shows that the index stays below
  \<^verbatim>\<open>tableSize ()\<close> and the allocated length in every table that satisfies the invariant.
\<close>

definition resTable_hash :: "'id idClass \<Rightarrow> 'id resTable \<Rightarrow> 'id \<Rightarrow> resTableIndex" where
  "resTable_hash C t idIn =
     (let h = idHash C idIn;
          h0 = h AND ucast (hashIxMask t)
      in if h0 \<ge> ucast (nextSplitIndex t) then h0
         else h AND ucast (hashIxSplitMask t))"

definition resTable_tableSize :: "'id resTable \<Rightarrow> unsigned" where
  "resTable_tableSize t = (hashIxMask t + 1) + nextSplitIndex t"

definition resTable_numEntriesInstalled :: "'id resTable \<Rightarrow> unsigned" where
  "resTable_numEntriesInstalled t = nInUse t"

text \<open>\<^verbatim>\<open>resTable<T,ID>::find\<close>: the first record of the chain with \<^verbatim>\<open>id == idIn\<close>, the left
  operand being the record in the chain.\<close>

fun resTable_find :: "'id idClass \<Rightarrow> 'id res list \<Rightarrow> 'id \<Rightarrow> 'id res option" where
  "resTable_find C [] idIn = None"
| "resTable_find C (item # rest) idIn =
     (if idEq C (resId item) idIn then Some item else resTable_find C rest idIn)"

text \<open>The loop of \<^verbatim>\<open>resTable<T,ID>::findDelete\<close> on one chain: the first matching record is
  unlinked (from the head by \<^verbatim>\<open>get\<close>, elsewhere by \<^verbatim>\<open>remove ( *pPrev )\<close>).\<close>

fun findDelete_chain ::
  "'id idClass \<Rightarrow> 'id res list \<Rightarrow> 'id \<Rightarrow> 'id res option \<times> 'id res list" where
  "findDelete_chain C [] idIn = (None, [])"
| "findDelete_chain C (item # rest) idIn =
     (if idEq C (resId item) idIn then (Some item, rest)
      else (case findDelete_chain C rest idIn of
              (found, rest') \<Rightarrow> (found, item # rest')))"

text \<open>\<^verbatim>\<open>findDelete\<close> on the chain \<open>index\<close> of the table, with its \<^verbatim>\<open>this->nInUse--\<close>.\<close>

definition resTable_findDelete ::
  "'id idClass \<Rightarrow> 'id resTable \<Rightarrow> nat \<Rightarrow> 'id \<Rightarrow> 'id res option \<times> 'id resTable" where
  "resTable_findDelete C t index idIn =
     (case findDelete_chain C (pTable t ! index) idIn of
        (None, list) \<Rightarrow> (None, t)
      | (Some item, list) \<Rightarrow>
          (Some item, t\<lparr>pTable := (pTable t)[index := list], nInUse := nInUse t - 1\<rparr>))"

definition resTable_remove ::
  "'id idClass \<Rightarrow> 'id resTable \<Rightarrow> 'id \<Rightarrow> 'id res option \<times> 'id resTable" where
  "resTable_remove C t idIn = resTable_findDelete C t (unat (resTable_hash C t idIn)) idIn"

definition resTable_lookup :: "'id idClass \<Rightarrow> 'id resTable \<Rightarrow> 'id \<Rightarrow> 'id res option" where
  "resTable_lookup C t idIn = resTable_find C (pTable t ! unat (resTable_hash C t idIn)) idIn"

text \<open>
  The first half of \<^verbatim>\<open>splitBucket\<close> once the allocation has succeeded: the occupied chain
  heads are copied, the others start empty, and the masks move up.
\<close>

definition doubleTable :: "'id resTable \<Rightarrow> 'id resTable" where
  "doubleTable t =
     (let oldTableSize = hashIxSplitMask t + 1;
          newTableSize = oldTableSize * 2;
          oldTableOccupiedSize = (hashIxMask t + 1) + nextSplitIndex t;
          pNewTable = map (\<lambda>list. fst (tsSLList_transfer list))
                        (take (unat oldTableOccupiedSize) (pTable t)) @
                      replicate (unat newTableSize - unat oldTableOccupiedSize) []
      in t\<lparr>pTable := pNewTable,
            hashIxMask := hashIxSplitMask t,
            hashIxSplitMask := newTableSize - 1,
            nextSplitIndex := 0\<rparr>)"

text \<open>The \<^verbatim>\<open>while ( pItem )\<close> loop of \<^verbatim>\<open>splitBucket\<close>: each record that \<^verbatim>\<open>tmp.get ()\<close> takes
  from the front of \<open>tmp\<close> is hashed again and pushed on the front of its chain.\<close>

fun rehash :: "'id idClass \<Rightarrow> 'id resTable \<Rightarrow> 'id res list \<Rightarrow> 'id resTable" where
  "rehash C t [] = t"
| "rehash C t (pItem # tmp) =
     (let index = unat (resTable_hash C t (resId pItem))
      in rehash C (t\<lparr>pTable := (pTable t)[index := tsSLList_add pItem (pTable t ! index)]\<rparr>) tmp)"

text \<open>The second half of \<^verbatim>\<open>splitBucket\<close>: \<open>tmp\<close> is constructed from the chain at
  \<^verbatim>\<open>nextSplitIndex\<close>, which empties that chain; \<^verbatim>\<open>nextSplitIndex\<close> is incremented and \<open>tmp\<close>
  is rehashed.\<close>

definition splitOne :: "'id idClass \<Rightarrow> 'id resTable \<Rightarrow> 'id resTable" where
  "splitOne C t =
     (case tsSLList_transfer (pTable t ! unat (nextSplitIndex t)) of
        (tmp, emptied) \<Rightarrow>
          rehash C
            (t\<lparr>pTable := (pTable t)[unat (nextSplitIndex t) := emptied],
               nextSplitIndex := nextSplitIndex t + 1\<rparr>)
            tmp)"

text \<open>\<^verbatim>\<open>resTable<T,ID>::splitBucket\<close>. \<open>allocOk\<close> says whether \<^verbatim>\<open>operator new ( ..., std::nothrow )\<close>
  returns storage; when it does not, the function returns without splitting.\<close>

definition resTable_splitBucket :: "'id idClass \<Rightarrow> bool \<Rightarrow> 'id resTable \<Rightarrow> 'id resTable" where
  "resTable_splitBucket C allocOk t =
     (if nextSplitIndex t > hashIxMask t
      then (if \<not> allocOk then t else splitOne C (doubleTable t))
      else splitOne C t)"

text \<open>\<^verbatim>\<open>resTable<T,ID>::add\<close>: status \<open>-1\<close> (id exists in table) or \<open>0\<close> (success).\<close>

definition resTable_add ::
  "'id idClass \<Rightarrow> bool \<Rightarrow> 'id res \<Rightarrow> 'id resTable \<Rightarrow> int \<times> 'id resTable" where
  "resTable_add C allocOk res t =
     (let t1 = (if nInUse t > resTable_tableSize t then resTable_splitBucket C allocOk t else t);
          index = unat (resTable_hash C t1 (resId res))
      in if resTable_find C (pTable t1 ! index) (resId res) \<noteq> None then (- 1, t1)
         else (0, t1\<lparr>pTable := (pTable t1)[index := tsSLList_add res (pTable t1 ! index)],
                     nInUse := nInUse t1 + 1\<rparr>))"

text \<open>The first statement of \<^verbatim>\<open>add\<close> on its own: the table after the split step, if
  one is due.\<close>

definition add_splitStep :: "'id idClass \<Rightarrow> bool \<Rightarrow> 'id resTable \<Rightarrow> 'id resTable" where
  "add_splitStep C allocOk t =
     (if nInUse t > resTable_tableSize t then resTable_splitBucket C allocOk t else t)"

text \<open>
  \<^verbatim>\<open>resTable<T,ID>::verify\<close>: \<open>True\<close> when none of its assertions fails. It walks the first
  \<^verbatim>\<open>tableSize ()\<close> chains, asserts \<^verbatim>\<open>index == i\<close> for the hash of every record of chain \<open>i\<close>,
  adds the chain lengths up in an \<^verbatim>\<open>unsigned\<close> and asserts \<^verbatim>\<open>total == this->nInUse\<close>.
\<close>

definition resTable_verify :: "'id idClass \<Rightarrow> 'id resTable \<Rightarrow> bool" where
  "resTable_verify C t =
     (let N = unat (resTable_tableSize t);
          pList = take N (pTable t)
      in list_all
           (\<lambda>(i, chain). list_all (\<lambda>pItem. resTable_hash C t (resId pItem) = of_nat i) chain)
           (enumerate 0 pList) \<and>
         (of_nat (sum_list (map length pList)) :: unsigned) = nInUse t)"

text \<open>
  The bucket index in the specification's words (section 4.5), on natural numbers:
  \<open>b0 = h & hashIxMask\<close>, and \<open>b = b0\<close> if \<open>b0 >= nextSplitIndex\<close>, else \<open>h & hashIxSplitMask\<close>.
\<close>

definition bucketIndex :: "nat \<Rightarrow> nat \<Rightarrow> nat \<Rightarrow> nat \<Rightarrow> nat" where
  "bucketIndex h ixMask splitMask splitIndex =
     (if h AND ixMask \<ge> splitIndex then h AND ixMask else h AND splitMask)"

subsection \<open>Reachable tables\<close>

text \<open>
  The tables a program can hold: built by the constructor, then changed by \<^verbatim>\<open>add\<close> and
  \<^verbatim>\<open>remove\<close> only. The caller's side of the contract is part of the rules: the record
  handed to \<^verbatim>\<open>add\<close> is not already linked, and the 32-bit counters stay in range
  (\<open>minIndexBitWidth < 30\<close>, fewer than \<open>2 ^ 30\<close> records installed when \<^verbatim>\<open>add\<close> is called).
\<close>

inductive reachable :: "'id idClass \<Rightarrow> 'id resTable \<Rightarrow> bool" for C :: "'id idClass" where
  reachable_ctor:
    "minIndexBitWidth C < 30 \<Longrightarrow> resTable_ctor C True = Inr t \<Longrightarrow> reachable C t"
| reachable_add:
    "reachable C t \<Longrightarrow> unat (nInUse t) < 2 ^ 30 \<Longrightarrow> res \<notin> set (concat (pTable t)) \<Longrightarrow>
     reachable C (snd (resTable_add C allocOk res t))"
| reachable_remove:
    "reachable C t \<Longrightarrow> reachable C (snd (resTable_remove C t idIn))"

text \<open>
  The invariant behind the proofs, for the table whose narrow mask has \<open>k\<close> bits: the
  masks and the split index fit the allocated chain heads, every record sits in the
  chain its identifier hashes to, and \<^verbatim>\<open>nInUse\<close> counts the records.
\<close>

definition resTable_shape :: "nat \<Rightarrow> 'id resTable \<Rightarrow> bool" where
  "resTable_shape k t \<longleftrightarrow>
     k \<le> 29 \<and>
     unat (hashIxMask t) = 2 ^ k - 1 \<and>
     unat (hashIxSplitMask t) = 2 ^ Suc k - 1 \<and>
     unat (nextSplitIndex t) \<le> 2 ^ k \<and>
     length (pTable t) = 2 ^ Suc k"

definition resTable_consistent :: "'id idClass \<Rightarrow> 'id resTable \<Rightarrow> bool" where
  "resTable_consistent C t \<longleftrightarrow>
     (\<forall>i<length (pTable t). \<forall>r\<in>set (pTable t ! i). unat (resTable_hash C t (resId r)) = i)"

definition resTable_inv :: "'id idClass \<Rightarrow> nat \<Rightarrow> 'id resTable \<Rightarrow> bool" where
  "resTable_inv C k t \<longleftrightarrow>
     resTable_shape k t \<and> resTable_consistent C t \<and>
     unat (nInUse t) = length (concat (pTable t))"

subsection \<open>chronIntIdResTable\<close>

text \<open>
  \<^verbatim>\<open>class chronIntIdResTable : public resTable<ITEM, chronIntId>\<close> with its counter
  \<^verbatim>\<open>unsigned allocId\<close>; the base class is the field \<open>table\<close>.
\<close>

record chronIntIdResTable =
  table :: "unsigned resTable"
  allocId :: unsigned

definition chronIntIdResTable_ctor :: "bool \<Rightarrow> error + chronIntIdResTable" where
  "chronIntIdResTable_ctor allocOk =
     (case resTable_ctor chronIntId allocOk of
        Inl e \<Rightarrow> Inl e
      | Inr t \<Rightarrow> Inr \<lparr>table = t, allocId = 1\<rparr>)"

text \<open>\<^verbatim>\<open>chronIntIdRes<ITEM>::chronIntIdRes () : chronIntId (UINT_MAX)\<close> and \<^verbatim>\<open>setId\<close>.\<close>

definition chronIntIdRes_ctor :: "nat \<Rightarrow> unsigned res" where
  "chronIntIdRes_ctor addr = Res addr (- 1)"

definition setId :: "unsigned \<Rightarrow> unsigned res \<Rightarrow> unsigned res" where
  "setId newId item = Res (resAddr item) newId"

text \<open>
  \<^verbatim>\<open>chronIntIdResTable<ITEM>::add\<close>: \<^verbatim>\<open>do { item.setId (allocId++); status = add (item); }
  while (status)\<close>. The loop has no bound of its own, so the function is partial: \<open>None\<close>
  stands for a loop that never ends. \<open>allocOk n\<close> says whether an allocation in the
  \<open>n\<close>-th call of \<^verbatim>\<open>resTable::add\<close> succeeds. The result is the table and the item with the
  identifier it was given.
\<close>

partial_function (option) chronIntIdResTable_add ::
  "(nat \<Rightarrow> bool) \<Rightarrow> nat \<Rightarrow> chronIntIdResTable \<Rightarrow> unsigned res
     \<Rightarrow> (chronIntIdResTable \<times> unsigned res) option" where
  "chronIntIdResTable_add allocOk n c item =
     (let item' = setId (allocId c) item;
          r = resTable_add chronIntId (allocOk n) item' (table c);
          c' = c\<lparr>table := snd r, allocId := allocId c + 1\<rparr>
      in if fst r \<noteq> 0 then chronIntIdResTable_add allocOk (Suc n) c' item'
         else Some (c', item'))"

section \<open>Properties of the hash functions\<close>

subsection \<open>The integer mixer\<close>

lemma integerHash_loop_xor:
  "integerHash_loop m w (a XOR b) = integerHash_loop m w a XOR integerHash_loop m w b"
proof (induction m w a arbitrary: b rule: integerHash_loop.induct)
  case (1 m w a)
  show ?case
  proof (cases "w div 2 > m")
    case True
    have "integerHash_loop m w (a XOR b) =
          integerHash_loop m (w div 2)
            ((a XOR drop_bit (w div 2) a) XOR (b XOR drop_bit (w div 2) b))"
      using True by (subst integerHash_loop.simps) (simp add: ac_simps)
    also have "\<dots> = integerHash_loop m (w div 2) (a XOR drop_bit (w div 2) a) XOR
                     integerHash_loop m (w div 2) (b XOR drop_bit (w div 2) b)"
      using True by (rule "1.IH")
    finally show ?thesis
      using True
      by (simp add: integerHash_loop.simps [of m w a] integerHash_loop.simps [of m w b])
  next
    case False
    then show ?thesis
      by (simp add: integerHash_loop.simps [of m w] ac_simps)
  qed
qed

lemma integerHash_xor:
  "integerHash m w (a XOR b) = integerHash m w a XOR integerHash m w b"
  by (simp add: integerHash_def unsigned_xor_eq integerHash_loop_xor)

lemma all_less_numeral:
  "(\<forall>i<numeral k. P i) \<longleftrightarrow> P (pred_numeral k) \<and> (\<forall>i<pred_numeral k. P i)"
  by (simp add: numeral_eq_Suc All_less_Suc)

lemma integerHash_single_bit:
  "\<forall>i<32. take_bit 4 (integerHash 4 32 (push_bit i (1::unsigned))) \<noteq> 0"
  by (simp add: all_less_numeral integerHash_def integerHash_loop.simps)

lemma xor_absorb_zero:
  fixes X Y :: "'a::len word"
  assumes "X = X XOR Y"
  shows "Y = 0"
proof -
  have "Y = X XOR (X XOR Y)"
    by (simp add: xor.assoc [symmetric])
  also have "\<dots> = X XOR X"
    using assms by simp
  finally show ?thesis by simp
qed

text \<open>
  C8. For the mixer with \<open>(MIN_INDEX_WIDTH, MAX_ID_WIDTH) = (4, 32)\<close>: two 32-bit inputs that
  differ in exactly one bit \<open>i\<close> have different outputs once both are masked to the low
  \<open>k\<close> bits, for every \<open>k\<close> from 4 to 32.
\<close>

theorem integerHash_avalanche:
  assumes "i < 32" and "4 \<le> k" and "k \<le> 32"
  shows "integerHash 4 32 (v::unsigned) AND mask k \<noteq>
         integerHash 4 32 (v XOR push_bit i 1) AND mask k"
proof
  let ?e = "integerHash 4 32 (push_bit i (1::unsigned))"
  assume eq: "integerHash 4 32 v AND mask k = integerHash 4 32 (v XOR push_bit i 1) AND mask k"
  have "take_bit k (integerHash 4 32 v) = take_bit k (integerHash 4 32 v) XOR take_bit k ?e"
    using eq by (simp add: take_bit_eq_mask integerHash_xor bit.conj_xor_distrib2)
  then have "take_bit k ?e = 0"
    by (rule xor_absorb_zero)
  then have "take_bit 4 (take_bit k ?e) = 0"
    by simp
  then have "take_bit 4 ?e = 0"
    using assms(2) by (simp add: min_def)
  then show False
    using integerHash_single_bit assms(1) by simp
qed

theorem integerHash_avalanche_witness:
  "(3::nat) < 32 \<and> (4::nat) \<le> 4 \<and> (4::nat) \<le> 32 \<and>
   integerHash 4 32 (0x12345678::unsigned) AND mask 4 \<noteq>
   integerHash 4 32 (0x12345678 XOR push_bit 3 1 :: unsigned) AND mask 4"
  using integerHash_avalanche [of 3 4 "0x12345678"] by simp

text \<open>
  C6, as the specification states it, fails: \<^verbatim>\<open>stringId::hash\<close> itself calls the mixer with
  \<open>MIN_INDEX_WIDTH = 8 \<ge> MAX_ID_WIDTH = 4\<close>, and the input 4 (the composite of the string
  \<^verbatim>\<open>"r"\<close>) comes back as 5, because the body of a \<^verbatim>\<open>do ... while\<close> runs once before the
  test.
\<close>

theorem integerHash_identity_counterexample:
  "stringIdMaxIndexWidth \<le> stringIdMinIndexWidth \<and>
   integerHash stringIdMinIndexWidth stringIdMaxIndexWidth (4::unsigned) = 5 \<and>
   integerHash stringIdMinIndexWidth stringIdMaxIndexWidth (4::unsigned) \<noteq> ucast (4::unsigned)"
  by (simp add: stringIdMinIndexWidth_def stringIdMaxIndexWidth_def integerHash_def
      integerHash_loop.simps)

text \<open>
  C6, amended. When \<open>MIN_INDEX_WIDTH \<ge> MAX_ID_WIDTH\<close> (and the shift count
  \<open>MAX_ID_WIDTH div 2\<close> is below the 64 bits of \<^verbatim>\<open>resTableIndex\<close>), the body of the folding loop
  runs exactly once: the mixer returns \<open>v XOR (v >> (MAX_ID_WIDTH div 2))\<close>.
\<close>

theorem integerHash_degenerate:
  assumes "MAX_ID_WIDTH \<le> MIN_INDEX_WIDTH" and "MAX_ID_WIDTH div 2 < 64"
  shows "integerHash MIN_INDEX_WIDTH MAX_ID_WIDTH v =
         ucast v XOR drop_bit (MAX_ID_WIDTH div 2) (ucast v)"
  using assms(1) by (simp add: integerHash_def integerHash_loop.simps)

theorem integerHash_degenerate_witness:
  "(8::nat) \<le> 8 \<and> (8::nat) div 2 < 64 \<and>
   integerHash 8 8 (16::unsigned) = ucast (16::unsigned) XOR drop_bit (8 div 2) (ucast (16::unsigned)) \<and>
   integerHash 8 8 (16::unsigned) = 17"
  using integerHash_degenerate [of 8 8 "16::unsigned"] by simp

subsection \<open>The string hash\<close>

lemma mod4_steps:
  assumes "i mod 4 = (0::nat)"
  shows "Suc i mod 4 = 1" "Suc (Suc i) mod 4 = 2" "Suc (Suc (Suc i)) mod 4 = 3"
    "Suc (Suc (Suc (Suc i))) mod 4 = 0"
  using assms by presburger+

lemma spec_lanes_round:
  assumes "i mod 4 = 0"
  shows "stringId_hash_loop bs h0 h1 h2 h3 = spec_lanes i bs (h0, h1, h2, h3)"
  using assms
proof (induction bs h0 h1 h2 h3 arbitrary: i rule: stringId_hash_loop.induct)
  case (5 c0 c1 c2 c3 rest h0 h1 h2 h3)
  show ?case
    using "5.prems" mod4_steps [OF "5.prems"] "5.IH" [of "Suc (Suc (Suc (Suc i)))"] by simp
qed (simp_all add: mod4_steps)

lemma stringId_hash_lanes:
  "stringId_hash (Some bs) =
   integerHash stringIdMinIndexWidth stringIdMaxIndexWidth
     (composite (spec_lanes 0 bs (0, 0, 0, 0)))"
  by (simp add: stringId_hash_def composite_def spec_lanes_round [of 0, symmetric]
      split: prod.splits)

lemma stringId_hash_null: "stringId_hash None = 0"
  by (simp add: stringId_hash_def)

text \<open>
  C5. The lanes, the stop at the NUL, the composite and the null pointer are as the claim
  says (\<open>stringId_hash_lanes\<close>, \<open>stringId_hash_null\<close>); the mixer is not called with
  \<open>MAX_ID_WIDTH = 32\<close> but with \<^verbatim>\<open>sizeof ( unsigned )\<close> = 4. On the one-byte string \<^verbatim>\<open>"b"\<close> the
  source returns 120, where the hash of the claim returns 96.
\<close>

theorem stringId_hash_b:
  "stringId_hash (Some [98]) = 120 \<and> spec_stringId_hash (Some [98]) = 96"
  by (simp add: stringId_hash_def spec_stringId_hash_def composite_def permuted_def
      fastHashPermutedIndexSpace_def integerHash_def integerHash_loop.simps
      stringIdMinIndexWidth_def stringIdMaxIndexWidth_def)

section \<open>Properties of the resource table\<close>

subsection \<open>Words and natural numbers\<close>

lemma and_mask_nat: "(n::nat) AND (2 ^ k - 1) = n mod 2 ^ k"
proof -
  have "n AND mask k = take_bit k n"
    by (simp add: take_bit_eq_mask)
  then show ?thesis
    by (simp add: take_bit_eq_mod mask_eq_exp_minus_1)
qed

lemma unat_add32:
  "unat a + unat b < 2 ^ 32 \<Longrightarrow> unat (a + b) = unat a + unat (b::unsigned)"
  using unat_add_lem [of a b] by simp

lemma unat_inc32: "unat a < 2 ^ 32 - 1 \<Longrightarrow> unat (a + 1) = Suc (unat (a::unsigned))"
  using unat_add32 [of a 1] by simp

lemma unat_dec32: "0 < unat a \<Longrightarrow> unat (a - 1) = unat (a::unsigned) - 1"
  by (simp add: unat_minus_one unat_gt_0)

lemma unat_double32: "unat a < 2 ^ 31 \<Longrightarrow> unat (a * 2) = unat (a::unsigned) * 2"
  using unat_mult_lem [of a 2] by simp

lemma unat_exp32: "m < 32 \<Longrightarrow> unat (2 ^ m :: unsigned) = 2 ^ m"
proof -
  assume m: "m < 32"
  have "(2::nat) ^ m < 2 ^ 32"
    using m by (intro power_strict_increasing) simp_all
  moreover have "(2 ^ m :: unsigned) = of_nat (2 ^ m)"
    by simp
  ultimately show ?thesis
    by (simp only: unat_of_nat) simp
qed

lemma unat_push_bit_dec32:
  assumes "m < 32"
  shows "unat (push_bit m 1 - 1 :: unsigned) = 2 ^ m - 1"
proof -
  have "unat (2 ^ m - 1 :: unsigned) = unat (2 ^ m :: unsigned) - 1"
    by (rule unat_dec32) (simp add: unat_exp32 assms)
  then show ?thesis
    by (simp add: push_bit_eq_mult unat_exp32 assms)
qed

subsection \<open>The bucket index on natural numbers\<close>

lemma unat_and_ucast:
  "unat ((h::resTableIndex) AND ucast (m::unsigned)) = unat h AND unat m"
  by (simp add: unsigned_and_eq unsigned_ucast_eq take_bit_nat_eq_self
      unsigned_less [THEN less_le_trans])

lemma ucast_le_iff:
  "(ucast (s::unsigned) \<le> (h::resTableIndex)) \<longleftrightarrow> unat s \<le> unat h"
  by (simp add: word_le_nat_alt unsigned_ucast_eq take_bit_nat_eq_self
      unsigned_less [THEN less_le_trans])

lemma unat_resTable_hash:
  "unat (resTable_hash C t idIn) =
   bucketIndex (unat (idHash C idIn)) (unat (hashIxMask t)) (unat (hashIxSplitMask t))
     (unat (nextSplitIndex t))"
  by (simp add: resTable_hash_def bucketIndex_def Let_def unat_and_ucast ucast_le_iff)

lemma bucketIndex_mod:
  "bucketIndex h (2 ^ k - 1) (2 ^ Suc k - 1) s =
   (if s \<le> h mod 2 ^ k then h mod 2 ^ k else h mod 2 ^ Suc k)"
  unfolding bucketIndex_def and_mask_nat by simp

lemma mod_Suc_exp_cases:
  "(h::nat) mod 2 ^ Suc k = h mod 2 ^ k \<or> h mod 2 ^ Suc k = h mod 2 ^ k + 2 ^ k"
proof -
  define x where "x = h mod 2 ^ Suc k"
  define p where "p = (2::nat) ^ k"
  have x: "x < 2 * p"
    by (simp add: x_def p_def)
  have m: "x mod p = h mod p"
    by (simp add: x_def p_def mod_mod_cancel)
  have "x = h mod p \<or> x = h mod p + p"
  proof (cases "x < p")
    case True
    with m show ?thesis by simp
  next
    case False
    then have "x mod p = (x - p) mod p"
      by (simp add: le_mod_geq)
    also have "\<dots> = x - p"
      using x False by (intro mod_less) linarith
    finally show ?thesis using m False by simp
  qed
  then show ?thesis
    by (simp only: x_def p_def)
qed

lemma bucketIndex_range:
  assumes "s \<le> 2 ^ k"
  shows "bucketIndex h (2 ^ k - 1) (2 ^ Suc k - 1) s < 2 ^ k + s"
proof (cases "s \<le> h mod 2 ^ k")
  case True
  then show ?thesis
    unfolding bucketIndex_mod by (simp add: trans_less_add1)
next
  case False
  with mod_Suc_exp_cases [of h k] show ?thesis
    unfolding bucketIndex_mod by auto
qed

lemma bucketIndex_next:
  assumes "bucketIndex h (2 ^ k - 1) (2 ^ Suc k - 1) s \<noteq> s"
  shows "bucketIndex h (2 ^ k - 1) (2 ^ Suc k - 1) (Suc s) =
         bucketIndex h (2 ^ k - 1) (2 ^ Suc k - 1) s"
  using assms unfolding bucketIndex_mod by (auto split: if_splits)

lemma bucketIndex_double:
  "bucketIndex h (2 ^ Suc k - 1) (2 ^ Suc (Suc k) - 1) 0 =
   bucketIndex h (2 ^ k - 1) (2 ^ Suc k - 1) (2 ^ k)"
proof -
  have "\<not> (2::nat) ^ k \<le> h mod 2 ^ k"
    by (simp add: not_le)
  then show ?thesis
    unfolding bucketIndex_mod by simp
qed

subsection \<open>Chains and lists of chains\<close>

lemma concat_update:
  assumes "i < length xs"
  shows "concat (xs[i := v]) = concat (take i xs) @ v @ concat (drop (Suc i) xs)"
  using assms by (simp add: upd_conv_take_nth_drop)

lemma concat_nth_split:
  assumes "i < length xs"
  shows "concat xs = concat (take i xs) @ xs ! i @ concat (drop (Suc i) xs)"
proof -
  have "concat xs = concat (xs[i := xs ! i])" by simp
  then show ?thesis using concat_update [OF assms, of "xs ! i"] by simp
qed

lemma length_concat_update:
  assumes "i < length xs"
  shows "length (concat (xs[i := v])) + length (xs ! i) = length (concat xs) + length v"
  using concat_update [OF assms, of v] concat_nth_split [OF assms] by simp

lemma set_concat_update:
  assumes "i < length xs"
  shows "set (concat (xs[i := v])) \<union> set (xs ! i) = set (concat xs) \<union> set v"
proof -
  have "set (concat (xs[i := v])) =
        set (concat (take i xs)) \<union> set v \<union> set (concat (drop (Suc i) xs))"
    by (simp only: concat_update [OF assms] set_append Un_assoc)
  moreover have "set (concat xs) =
        set (concat (take i xs)) \<union> set (xs ! i) \<union> set (concat (drop (Suc i) xs))"
    by (subst concat_nth_split [OF assms]) (simp only: set_append Un_assoc)
  ultimately show ?thesis by blast
qed

lemma set_concat_push:
  assumes "i < length xs"
  shows "set (concat (xs[i := x # xs ! i])) = insert x (set (concat xs))"
proof -
  define A where "A = set (concat (take i xs))"
  define B where "B = set (concat (drop (Suc i) xs))"
  have "set (concat (xs[i := x # xs ! i])) = A \<union> set (x # xs ! i) \<union> B"
    by (simp only: concat_update [OF assms] set_append Un_assoc A_def B_def)
  moreover have "set (concat xs) = A \<union> set (xs ! i) \<union> B"
    by (subst concat_nth_split [OF assms]) (simp only: set_append Un_assoc A_def B_def)
  ultimately show ?thesis by auto
qed

lemma length_concat_push:
  assumes "i < length xs"
  shows "length (concat (xs[i := x # xs ! i])) = Suc (length (concat xs))"
  using length_concat_update [OF assms, of "x # xs ! i"] by simp

lemma in_concat_nth: "i < length xs \<Longrightarrow> r \<in> set (xs ! i) \<Longrightarrow> r \<in> set (concat xs)"
  by (subst concat_nth_split [of i xs]) auto

lemma in_concatE:
  assumes "r \<in> set (concat xs)"
  obtains i where "i < length xs" and "r \<in> set (xs ! i)"
proof -
  from assms obtain ys where "ys \<in> set xs" and r: "r \<in> set ys"
    by auto
  then obtain i where "i < length xs" and "xs ! i = ys"
    by (auto simp add: in_set_conv_nth)
  with r that show thesis by blast
qed

subsection \<open>find and findDelete on a chain\<close>

lemma resTable_find_None_iff:
  "resTable_find C chain idIn = None \<longleftrightarrow> (\<forall>r\<in>set chain. \<not> idEq C (resId r) idIn)"
  by (induction chain) auto

lemma resTable_find_Some:
  "resTable_find C chain idIn = Some r \<Longrightarrow> r \<in> set chain \<and> idEq C (resId r) idIn"
  by (induction chain) (auto split: if_splits)

lemma findDelete_chain_fst:
  "fst (findDelete_chain C chain idIn) = resTable_find C chain idIn"
  by (induction chain) (auto split: prod.splits)

lemma findDelete_chain_None:
  "findDelete_chain C chain idIn = (None, rest) \<Longrightarrow> rest = chain"
  by (induction chain arbitrary: rest) (auto split: if_splits prod.splits)

lemma findDelete_chain_Some:
  "findDelete_chain C chain idIn = (Some r, rest) \<Longrightarrow>
   Suc (length rest) = length chain \<and> set rest \<subseteq> set chain"
  by (induction chain arbitrary: rest) (auto split: if_splits prod.splits)

subsection \<open>The hash depends on the masks and the split index only\<close>

lemma resTable_hash_pTable [simp]:
  "resTable_hash C (t\<lparr>pTable := p\<rparr>) = resTable_hash C t"
  by (rule ext) (simp add: resTable_hash_def Let_def)

lemma resTable_hash_nInUse [simp]:
  "resTable_hash C (t\<lparr>nInUse := n\<rparr>) = resTable_hash C t"
  by (rule ext) (simp add: resTable_hash_def Let_def)

lemma shape_hash:
  assumes "resTable_shape k t"
  shows "unat (resTable_hash C t idIn) =
         bucketIndex (unat (idHash C idIn)) (2 ^ k - 1) (2 ^ Suc k - 1)
           (unat (nextSplitIndex t))"
  using assms by (simp only: unat_resTable_hash resTable_shape_def)

lemma shape_hash_range:
  assumes "resTable_shape k t"
  shows "unat (resTable_hash C t idIn) < 2 ^ k + unat (nextSplitIndex t)"
    and "unat (resTable_hash C t idIn) < length (pTable t)"
proof -
  have s: "unat (nextSplitIndex t) \<le> 2 ^ k" and l: "length (pTable t) = 2 ^ Suc k"
    using assms by (simp_all add: resTable_shape_def)
  show "unat (resTable_hash C t idIn) < 2 ^ k + unat (nextSplitIndex t)"
    unfolding shape_hash [OF assms] by (rule bucketIndex_range [OF s])
  then show "unat (resTable_hash C t idIn) < length (pTable t)"
    using s l by simp
qed

subsection \<open>The invariant through the split step\<close>

lemma shape_pTable_update:
  "resTable_shape k t \<Longrightarrow> length p = length (pTable t) \<Longrightarrow> resTable_shape k (t\<lparr>pTable := p\<rparr>)"
  by (simp add: resTable_shape_def)

lemma consistent_push:
  assumes sh: "resTable_shape k t" and co: "resTable_consistent C t"
    and i: "i = unat (resTable_hash C t (resId x))"
  shows "resTable_consistent C (t\<lparr>pTable := (pTable t)[i := x # pTable t ! i]\<rparr>)"
proof -
  have il: "i < length (pTable t)"
    unfolding i by (rule shape_hash_range(2) [OF sh])
  show ?thesis
    unfolding resTable_consistent_def
  proof (intro allI impI ballI)
    fix j r
    assume j: "j < length (pTable (t\<lparr>pTable := (pTable t)[i := x # pTable t ! i]\<rparr>))"
      and r: "r \<in> set (pTable (t\<lparr>pTable := (pTable t)[i := x # pTable t ! i]\<rparr>) ! j)"
    have jl: "j < length (pTable t)" using j by simp
    show "unat (resTable_hash C (t\<lparr>pTable := (pTable t)[i := x # pTable t ! i]\<rparr>) (resId r)) = j"
    proof (cases "j = i")
      case True
      with r il have "r = x \<or> r \<in> set (pTable t ! i)" by simp
      then show ?thesis
        using co il True i by (auto simp add: resTable_consistent_def)
    next
      case False
      with r have "r \<in> set (pTable t ! j)" by simp
      then show ?thesis
        using co jl by (simp add: resTable_consistent_def)
    qed
  qed
qed

lemma rehash_props:
  assumes "resTable_shape k t" and "resTable_consistent C t"
  shows "resTable_shape k (rehash C t tmp) \<and>
         resTable_consistent C (rehash C t tmp) \<and>
         set (concat (pTable (rehash C t tmp))) = set (concat (pTable t)) \<union> set tmp \<and>
         length (concat (pTable (rehash C t tmp))) = length (concat (pTable t)) + length tmp \<and>
         nInUse (rehash C t tmp) = nInUse t \<and>
         nextSplitIndex (rehash C t tmp) = nextSplitIndex t"
  using assms
proof (induction tmp arbitrary: t)
  case Nil
  then show ?case by simp
next
  case (Cons x tmp)
  define i where "i = unat (resTable_hash C t (resId x))"
  define t' where "t' = t\<lparr>pTable := (pTable t)[i := x # pTable t ! i]\<rparr>"
  have il: "i < length (pTable t)"
    unfolding i_def by (rule shape_hash_range(2) [OF Cons.prems(1)])
  have sh: "resTable_shape k t'"
    unfolding t'_def by (rule shape_pTable_update [OF Cons.prems(1)]) simp
  have co: "resTable_consistent C t'"
    unfolding t'_def by (rule consistent_push [OF Cons.prems i_def])
  have r: "rehash C t (x # tmp) = rehash C t' tmp"
    by (simp add: t'_def i_def Let_def tsSLList_add_def)
  have s: "set (concat (pTable t')) = insert x (set (concat (pTable t)))"
    by (simp add: t'_def set_concat_push [OF il] del: set_concat)
  have l: "length (concat (pTable t')) = Suc (length (concat (pTable t)))"
    by (simp add: t'_def length_concat_push [OF il])
  have f: "nInUse t' = nInUse t" "nextSplitIndex t' = nextSplitIndex t"
    by (simp_all add: t'_def)
  show ?case
    unfolding r using Cons.IH [OF sh co] s l f by simp
qed

lemma pow2_bound: "k \<le> n \<Longrightarrow> (2::nat) ^ k \<le> 2 ^ n"
  by (rule power_increasing) simp_all

lemma splitOne_props:
  assumes inv: "resTable_inv C k t" and lt: "unat (nextSplitIndex t) < 2 ^ k"
  shows "resTable_inv C k (splitOne C t)"
    and "set (concat (pTable (splitOne C t))) = set (concat (pTable t))"
    and "nInUse (splitOne C t) = nInUse t"
proof -
  define s where "s = unat (nextSplitIndex t)"
  define t1 where "t1 = t\<lparr>pTable := (pTable t)[s := []], nextSplitIndex := nextSplitIndex t + 1\<rparr>"
  have sh: "resTable_shape k t" and co: "resTable_consistent C t"
    and cnt: "unat (nInUse t) = length (concat (pTable t))"
    using inv by (simp_all add: resTable_inv_def)
  have k: "k \<le> 29" and len: "length (pTable t) = 2 ^ Suc k"
    using sh by (simp_all add: resTable_shape_def)
  have p: "(2::nat) ^ k \<le> 536870912"
    using pow2_bound [OF k] by simp
  have n1: "unat (nextSplitIndex t + 1) = Suc s"
    unfolding s_def using lt p by (intro unat_inc32) simp
  have sl: "s < length (pTable t)"
    using lt len by (simp add: s_def)
  have sh1: "resTable_shape k t1"
    using sh lt n1 by (simp add: resTable_shape_def t1_def s_def)
  have co1: "resTable_consistent C t1"
    unfolding resTable_consistent_def
  proof (intro allI impI ballI)
    fix j r
    assume j: "j < length (pTable t1)" and r: "r \<in> set (pTable t1 ! j)"
    have jl: "j < length (pTable t)" using j by (simp add: t1_def)
    have js: "j \<noteq> s" using r sl by (auto simp add: t1_def)
    then have "r \<in> set (pTable t ! j)" using r by (simp add: t1_def)
    then have old: "unat (resTable_hash C t (resId r)) = j"
      using co jl by (simp add: resTable_consistent_def)
    have "unat (resTable_hash C t1 (resId r)) =
          bucketIndex (unat (idHash C (resId r))) (2 ^ k - 1) (2 ^ Suc k - 1) (Suc s)"
      unfolding shape_hash [OF sh1] using n1 by (simp add: t1_def)
    also have "\<dots> = bucketIndex (unat (idHash C (resId r))) (2 ^ k - 1) (2 ^ Suc k - 1) s"
      using old js unfolding shape_hash [OF sh] s_def by (intro bucketIndex_next) simp
    also have "\<dots> = j"
      using old unfolding shape_hash [OF sh] s_def .
    finally show "unat (resTable_hash C t1 (resId r)) = j" .
  qed
  have eq: "splitOne C t = rehash C t1 (pTable t ! s)"
    by (simp add: splitOne_def tsSLList_transfer_def t1_def s_def)
  note rp = rehash_props [OF sh1 co1, of "pTable t ! s"]
  have s1: "set (concat (pTable t1)) \<union> set (pTable t ! s) = set (concat (pTable t))"
    using set_concat_update [OF sl, of "[]"] by (simp add: t1_def del: set_concat)
  have l1: "length (concat (pTable t1)) + length (pTable t ! s) = length (concat (pTable t))"
    using length_concat_update [OF sl, of "[]"] by (simp add: t1_def)
  show "set (concat (pTable (splitOne C t))) = set (concat (pTable t))"
    unfolding eq using rp s1 by (simp del: set_concat)
  show "nInUse (splitOne C t) = nInUse t"
    unfolding eq using rp by (simp add: t1_def)
  then show "resTable_inv C k (splitOne C t)"
    unfolding eq using rp l1 cnt by (simp add: resTable_inv_def)
qed

lemma concat_replicate_Nil: "concat (replicate n []) = []"
  by (induction n) simp_all

lemma doubleTable_props:
  assumes inv: "resTable_inv C k t" and full: "unat (nextSplitIndex t) = 2 ^ k"
    and k: "k \<le> 28"
  shows "resTable_inv C (Suc k) (doubleTable t)"
    and "nextSplitIndex (doubleTable t) = 0"
    and "set (concat (pTable (doubleTable t))) = set (concat (pTable t))"
    and "nInUse (doubleTable t) = nInUse t"
proof -
  have sh: "resTable_shape k t" and co: "resTable_consistent C t"
    and cnt: "unat (nInUse t) = length (concat (pTable t))"
    using inv by (simp_all add: resTable_inv_def)
  have m1: "unat (hashIxMask t) = 2 ^ k - 1" and m2: "unat (hashIxSplitMask t) = 2 * 2 ^ k - 1"
    and len: "length (pTable t) = 2 * 2 ^ k"
    using sh by (simp_all add: resTable_shape_def)
  have p: "(2::nat) ^ k \<le> 268435456"
    using pow2_bound [OF k] by simp
  have a1: "unat (hashIxSplitMask t + 1) = 2 * 2 ^ k"
    using unat_inc32 [of "hashIxSplitMask t"] m2 p by simp
  have a2: "unat ((hashIxSplitMask t + 1) * 2) = 4 * 2 ^ k"
    using unat_double32 [of "hashIxSplitMask t + 1"] a1 p by simp
  have a3: "unat ((hashIxSplitMask t + 1) * 2 - 1) = 4 * 2 ^ k - 1"
    using unat_dec32 [of "(hashIxSplitMask t + 1) * 2"] a2 by simp
  have a4: "unat (hashIxMask t + 1) = 2 ^ k"
    using unat_inc32 [of "hashIxMask t"] m1 p by simp
  have a5: "unat (hashIxMask t + 1 + nextSplitIndex t) = 2 * 2 ^ k"
    using unat_add32 [of "hashIxMask t + 1" "nextSplitIndex t"] a4 full p by simp
  define t' where "t' = t\<lparr>pTable := pTable t @ replicate (2 * 2 ^ k) [],
      hashIxMask := hashIxSplitMask t,
      hashIxSplitMask := (hashIxSplitMask t + 1) * 2 - 1,
      nextSplitIndex := 0\<rparr>"
  have eq: "doubleTable t = t'"
    unfolding doubleTable_def Let_def a2 a5 t'_def by (simp add: len tsSLList_transfer_def)
  have sh': "resTable_shape (Suc k) t'"
    using k m2 a3 len by (simp add: resTable_shape_def t'_def)
  have co': "resTable_consistent C t'"
    unfolding resTable_consistent_def
  proof (intro allI impI ballI)
    fix j r
    assume j: "j < length (pTable t')" and r: "r \<in> set (pTable t' ! j)"
    have jl: "j < length (pTable t)"
      using j r by (cases "j < length (pTable t)") (simp_all add: t'_def nth_append)
    then have "r \<in> set (pTable t ! j)"
      using r by (simp add: t'_def nth_append)
    then have old: "unat (resTable_hash C t (resId r)) = j"
      using co jl by (simp add: resTable_consistent_def)
    have "unat (resTable_hash C t' (resId r)) =
          bucketIndex (unat (idHash C (resId r))) (2 ^ Suc k - 1) (2 ^ Suc (Suc k) - 1) 0"
      unfolding shape_hash [OF sh'] by (simp add: t'_def)
    also have "\<dots> = bucketIndex (unat (idHash C (resId r))) (2 ^ k - 1) (2 ^ Suc k - 1) (2 ^ k)"
      by (rule bucketIndex_double)
    also have "\<dots> = j"
      using old unfolding shape_hash [OF sh] full .
    finally show "unat (resTable_hash C t' (resId r)) = j" .
  qed
  have cc: "concat (pTable t') = concat (pTable t)"
    by (simp add: t'_def concat_replicate_Nil)
  show "nextSplitIndex (doubleTable t) = 0"
    by (simp add: eq t'_def)
  show "set (concat (pTable (doubleTable t))) = set (concat (pTable t))"
    unfolding eq cc ..
  show "nInUse (doubleTable t) = nInUse t"
    by (simp add: eq t'_def)
  show "resTable_inv C (Suc k) (doubleTable t)"
    unfolding eq resTable_inv_def cc using sh' co' cnt by (simp add: t'_def)
qed

lemma unat_tableSize:
  assumes "resTable_shape k t"
  shows "unat (resTable_tableSize t) = 2 ^ k + unat (nextSplitIndex t)"
proof -
  have k: "k \<le> 29" and m1: "unat (hashIxMask t) = 2 ^ k - 1"
    and s: "unat (nextSplitIndex t) \<le> 2 ^ k"
    using assms by (simp_all add: resTable_shape_def)
  have p: "(2::nat) ^ k \<le> 536870912"
    using pow2_bound [OF k] by simp
  have a4: "unat (hashIxMask t + 1) = 2 ^ k"
    using unat_inc32 [of "hashIxMask t"] m1 p by simp
  show ?thesis
    unfolding resTable_tableSize_def
    using unat_add32 [of "hashIxMask t + 1" "nextSplitIndex t"] a4 s p by simp
qed

lemma splitBucket_props:
  assumes inv: "resTable_inv C k t" and bound: "unat (nInUse t) < 2 ^ 30"
    and due: "nInUse t > resTable_tableSize t"
  shows "\<exists>k'. resTable_inv C k' (resTable_splitBucket C allocOk t)"
    and "set (concat (pTable (resTable_splitBucket C allocOk t))) = set (concat (pTable t))"
    and "nInUse (resTable_splitBucket C allocOk t) = nInUse t"
proof -
  have sh: "resTable_shape k t"
    using inv by (simp add: resTable_inv_def)
  have k: "k \<le> 29" and m1: "unat (hashIxMask t) = 2 ^ k - 1"
    and s: "unat (nextSplitIndex t) \<le> 2 ^ k"
    using sh by (simp_all add: resTable_shape_def)
  have big: "2 ^ k + unat (nextSplitIndex t) < unat (nInUse t)"
    using due unfolding word_less_nat_alt unat_tableSize [OF sh] .
  have goal: "(\<exists>k'. resTable_inv C k' (resTable_splitBucket C allocOk t)) \<and>
      set (concat (pTable (resTable_splitBucket C allocOk t))) = set (concat (pTable t)) \<and>
      nInUse (resTable_splitBucket C allocOk t) = nInUse t"
  proof (cases "nextSplitIndex t > hashIxMask t")
    case False
    moreover have "0 < (2::nat) ^ k" by simp
    ultimately have lt: "unat (nextSplitIndex t) < 2 ^ k"
      unfolding word_less_nat_alt m1 by linarith
    have eq: "resTable_splitBucket C allocOk t = splitOne C t"
      using False by (simp add: resTable_splitBucket_def)
    show ?thesis
      unfolding eq using splitOne_props [OF inv lt] by blast
  next
    case True
    moreover have "0 < (2::nat) ^ k" by simp
    ultimately have full: "unat (nextSplitIndex t) = 2 ^ k"
      using s unfolding word_less_nat_alt m1 by linarith
    show ?thesis
    proof (cases allocOk)
      case False
      with True have "resTable_splitBucket C allocOk t = t"
        by (simp add: resTable_splitBucket_def)
      with inv show ?thesis by auto
    next
      case ok: True
      have "(2::nat) ^ Suc k < 2 ^ 30"
        using big bound full by simp
      then have "Suc k < 30"
        by (simp only: power_strict_increasing_iff [of "2::nat"]) 
      then have k28: "k \<le> 28" by simp
      note d = doubleTable_props [OF inv full k28]
      have lt: "unat (nextSplitIndex (doubleTable t)) < 2 ^ Suc k"
        by (simp add: d(2))
      have eq: "resTable_splitBucket C allocOk t = splitOne C (doubleTable t)"
        using True ok by (simp add: resTable_splitBucket_def)
      show ?thesis
        unfolding eq using splitOne_props [OF d(1) lt] d(3) d(4) by auto
    qed
  qed
  from goal show "\<exists>k'. resTable_inv C k' (resTable_splitBucket C allocOk t)"
    and "set (concat (pTable (resTable_splitBucket C allocOk t))) = set (concat (pTable t))"
    and "nInUse (resTable_splitBucket C allocOk t) = nInUse t"
    by blast+
qed

lemma add_splitStep_props:
  assumes inv: "resTable_inv C k t" and bound: "unat (nInUse t) < 2 ^ 30"
  shows "\<exists>k'. resTable_inv C k' (add_splitStep C allocOk t)"
    and "set (concat (pTable (add_splitStep C allocOk t))) = set (concat (pTable t))"
    and "nInUse (add_splitStep C allocOk t) = nInUse t"
  using splitBucket_props [OF inv bound, of allocOk] inv
  by (auto simp add: add_splitStep_def simp del: set_concat)

lemma resTable_add_unfold:
  "resTable_add C allocOk res t =
   (let t1 = add_splitStep C allocOk t;
        index = unat (resTable_hash C t1 (resId res))
    in if resTable_find C (pTable t1 ! index) (resId res) \<noteq> None then (- 1, t1)
       else (0, t1\<lparr>pTable := (pTable t1)[index := res # pTable t1 ! index],
                   nInUse := nInUse t1 + 1\<rparr>))"
  by (simp add: resTable_add_def add_splitStep_def tsSLList_add_def Let_def)

lemma insert_props:
  assumes inv: "resTable_inv C k t" and bound: "unat (nInUse t) < 2 ^ 30"
    and i: "i = unat (resTable_hash C t (resId res))"
  shows "resTable_inv C k (t\<lparr>pTable := (pTable t)[i := res # pTable t ! i], nInUse := nInUse t + 1\<rparr>)"
proof -
  have sh: "resTable_shape k t" and co: "resTable_consistent C t"
    and cnt: "unat (nInUse t) = length (concat (pTable t))"
    using inv by (simp_all add: resTable_inv_def)
  have il: "i < length (pTable t)"
    unfolding i by (rule shape_hash_range(2) [OF sh])
  have n: "unat (nInUse t + 1) = Suc (unat (nInUse t))"
    using bound by (intro unat_inc32) simp
  have "resTable_consistent C (t\<lparr>pTable := (pTable t)[i := res # pTable t ! i]\<rparr>)"
    by (rule consistent_push [OF sh co i])
  then have "resTable_consistent C (t\<lparr>pTable := (pTable t)[i := res # pTable t ! i], nInUse := nInUse t + 1\<rparr>)"
    by (simp add: resTable_consistent_def)
  moreover have "resTable_shape k (t\<lparr>pTable := (pTable t)[i := res # pTable t ! i], nInUse := nInUse t + 1\<rparr>)"
    using sh by (simp add: resTable_shape_def)
  ultimately show ?thesis
    using n cnt length_concat_push [OF il, of res] by (simp add: resTable_inv_def)
qed

lemma resTable_add_inv:
  assumes inv: "resTable_inv C k t" and bound: "unat (nInUse t) < 2 ^ 30"
  shows "\<exists>k'. resTable_inv C k' (snd (resTable_add C allocOk res t))"
proof -
  note sp = add_splitStep_props [OF inv bound, of allocOk]
  from sp(1) obtain k' where inv1: "resTable_inv C k' (add_splitStep C allocOk t)" ..
  have b1: "unat (nInUse (add_splitStep C allocOk t)) < 2 ^ 30"
    using bound by (simp only: sp(3))
  show ?thesis
    unfolding resTable_add_unfold Let_def
    using inv1 insert_props [OF inv1 b1 refl, of res] by auto
qed

lemma findDelete_inv:
  assumes inv: "resTable_inv C k t" and i: "i < length (pTable t)"
  shows "resTable_inv C k (snd (resTable_findDelete C t i idIn))"
proof (cases "findDelete_chain C (pTable t ! i) idIn")
  case (Pair found rest)
  show ?thesis
  proof (cases found)
    case None
    with Pair inv show ?thesis by (simp add: resTable_findDelete_def)
  next
    case (Some r)
    have sh: "resTable_shape k t" and co: "resTable_consistent C t"
      and cnt: "unat (nInUse t) = length (concat (pTable t))"
      using inv by (simp_all add: resTable_inv_def)
    from Pair Some have fd: "Suc (length rest) = length (pTable t ! i)" "set rest \<subseteq> set (pTable t ! i)"
      using findDelete_chain_Some [of C "pTable t ! i" idIn r rest] by simp_all
    define t' where "t' = t\<lparr>pTable := (pTable t)[i := rest], nInUse := nInUse t - 1\<rparr>"
    have eq: "snd (resTable_findDelete C t i idIn) = t'"
      using Pair Some by (simp add: resTable_findDelete_def t'_def)
    have lc: "Suc (length (concat (pTable t'))) = length (concat (pTable t))"
      using length_concat_update [OF i, of rest] fd(1) by (simp add: t'_def)
    then have n: "unat (nInUse t - 1) = unat (nInUse t) - 1"
      using cnt by (intro unat_dec32) linarith
    have sh': "resTable_shape k t'"
      using sh by (simp add: resTable_shape_def t'_def)
    have co': "resTable_consistent C t'"
      unfolding resTable_consistent_def
    proof (intro allI impI ballI)
      fix j r'
      assume j: "j < length (pTable t')" and r: "r' \<in> set (pTable t' ! j)"
      have jl: "j < length (pTable t)" using j by (simp add: t'_def)
      have "r' \<in> set (pTable t ! j)"
        using r fd(2) i by (cases "j = i") (auto simp add: t'_def)
      then show "unat (resTable_hash C t' (resId r')) = j"
        using co jl by (simp add: resTable_consistent_def t'_def)
    qed
    show ?thesis
      unfolding eq resTable_inv_def using sh' co' lc n cnt by (simp add: t'_def)
  qed
qed

lemma resTable_remove_inv:
  assumes inv: "resTable_inv C k t"
  shows "resTable_inv C k (snd (resTable_remove C t idIn))"
proof -
  have sh: "resTable_shape k t"
    using inv by (simp add: resTable_inv_def)
  show ?thesis
    unfolding resTable_remove_def
    by (rule findDelete_inv [OF inv shape_hash_range(2) [OF sh]])
qed

lemma resTable_ctor_inv:
  assumes m: "minIndexBitWidth C < 30" and c: "resTable_ctor C True = Inr t"
  shows "resTable_inv C (minIndexBitWidth C) t"
proof -
  define m where "m = minIndexBitWidth C"
  have m30: "m < 30" using assms(1) by (simp add: m_def)
  then have ml: "m < 32" "Suc m < 32" "m \<le> 29" by simp_all
  have p: "(2::nat) ^ m \<le> 536870912"
    using pow2_bound [OF ml(3)] by simp
  have a1: "unat (push_bit m 1 - 1 :: unsigned) = 2 ^ m - 1"
    by (rule unat_push_bit_dec32 [OF ml(1)])
  have a2: "unat (push_bit (Suc m) 1 - 1 :: unsigned) = 2 ^ Suc m - 1"
    by (rule unat_push_bit_dec32 [OF ml(2)])
  have a3: "unat (push_bit (Suc m) 1 - 1 + 1 :: unsigned) = 2 ^ Suc m"
    using unat_inc32 [of "push_bit (Suc m) 1 - 1"] p unfolding a2 by simp
  have t: "t = \<lparr>pTable = replicate (2 ^ Suc m) [], nextSplitIndex = 0,
                 hashIxMask = push_bit m 1 - 1, hashIxSplitMask = push_bit (Suc m) 1 - 1,
                 nInUse = 0\<rparr>"
    using c unfolding resTable_ctor_def Let_def m_def [symmetric] Suc_eq_plus1 [symmetric] a3
    by simp
  have "resTable_shape m t"
    unfolding resTable_shape_def t using ml(3) a1 a2 by simp
  moreover have "resTable_consistent C t"
    unfolding resTable_consistent_def t by simp
  moreover have "unat (nInUse t) = length (concat (pTable t))"
    unfolding t by (simp add: concat_replicate_Nil)
  ultimately show ?thesis
    by (simp add: resTable_inv_def m_def)
qed

lemma reachable_inv:
  assumes "reachable C t"
  shows "\<exists>k. resTable_inv C k t"
  using assms
proof (induction rule: reachable.induct)
  case (reachable_ctor t)
  from resTable_ctor_inv [OF this] show ?case ..
next
  case (reachable_add t res allocOk)
  from reachable_add.IH obtain k where "resTable_inv C k t" ..
  from resTable_add_inv [OF this reachable_add.hyps(2)] show ?case .
next
  case (reachable_remove t idIn)
  from reachable_remove.IH obtain k where "resTable_inv C k t" ..
  from resTable_remove_inv [OF this] show ?case ..
qed

subsection \<open>Scanning the chain an identifier hashes to\<close>

lemma resTable_hash_cong:
  "idHash C a = idHash C b \<Longrightarrow> resTable_hash C t a = resTable_hash C t b"
  by (simp add: resTable_hash_def)

lemma bucket_find_None_iff:
  assumes inv: "resTable_inv C k t"
    and respects: "\<forall>a b. idEq C a b \<longrightarrow> idHash C a = idHash C b"
  shows "resTable_find C (pTable t ! unat (resTable_hash C t idIn)) idIn = None \<longleftrightarrow>
         (\<forall>x\<in>set (concat (pTable t)). \<not> idEq C (resId x) idIn)"
proof -
  have sh: "resTable_shape k t" and co: "resTable_consistent C t"
    using inv by (simp_all add: resTable_inv_def)
  define i where "i = unat (resTable_hash C t idIn)"
  have il: "i < length (pTable t)"
    unfolding i_def by (rule shape_hash_range(2) [OF sh])
  show ?thesis
    unfolding i_def [symmetric] resTable_find_None_iff
  proof
    assume a: "\<forall>r\<in>set (pTable t ! i). \<not> idEq C (resId r) idIn"
    show "\<forall>x\<in>set (concat (pTable t)). \<not> idEq C (resId x) idIn"
    proof
      fix x
      assume "x \<in> set (concat (pTable t))"
      then obtain j where j: "j < length (pTable t)" and x: "x \<in> set (pTable t ! j)"
        by (rule in_concatE)
      show "\<not> idEq C (resId x) idIn"
      proof
        assume e: "idEq C (resId x) idIn"
        then have "idHash C (resId x) = idHash C idIn"
          using respects by blast
        then have "resTable_hash C t (resId x) = resTable_hash C t idIn"
          by (rule resTable_hash_cong)
        moreover have "unat (resTable_hash C t (resId x)) = j"
          using co j x by (simp add: resTable_consistent_def)
        ultimately have "j = i" by (simp add: i_def)
        with a x e show False by blast
      qed
    qed
  next
    assume a: "\<forall>x\<in>set (concat (pTable t)). \<not> idEq C (resId x) idIn"
    show "\<forall>r\<in>set (pTable t ! i). \<not> idEq C (resId r) idIn"
      using a in_concat_nth [OF il] by blast
  qed
qed

lemma chain_find_None:
  assumes sh: "resTable_shape k t"
    and none: "\<forall>x\<in>set (concat (pTable t)). \<not> idEq C (resId x) idIn"
  shows "resTable_find C (pTable t ! unat (resTable_hash C t idIn)) idIn = None"
  unfolding resTable_find_None_iff
  using none in_concat_nth [OF shape_hash_range(2) [OF sh]] by blast

section \<open>The claims about the table\<close>

subsection \<open>A worked table\<close>

text \<open>
  \<^verbatim>\<open>resTable<T, intId<unsigned, 1, 32> >\<close>: four chain heads, two of them in use at first.
  The identifiers 7, 6, 5 hash to 5, 4, 6, so the first goes to chain 1 and the others to
  chain 0. The fourth \<^verbatim>\<open>add\<close> finds \<open>nInUse = 3 > tableSize = 2\<close> and splits chain 0.
\<close>

lemmas table_eval =
  intId_def resTable_ctor_def resTable_add_def resTable_hash_def resTable_tableSize_def
  resTable_splitBucket_def splitOne_def doubleTable_def tsSLList_add_def
  tsSLList_transfer_def integerHash_def
  integerHash_loop.simps Let_def resTable_lookup_def resTable_remove_def
  resTable_findDelete_def

lemma replicate_4: "replicate 4 x = [x, x, x, x]"
  by (simp add: numeral_eq_Suc)

lemma example_ctor:
  "resTable_ctor (intId 1 32 :: unsigned idClass) True =
   Inr \<lparr>pTable = [[], [], [], []], nextSplitIndex = 0, hashIxMask = 1,
        hashIxSplitMask = 3, nInUse = 0\<rparr>"
  by (simp add: table_eval replicate_4)

lemma example_add1:
  "resTable_add (intId 1 32) True (Res 1 (7::unsigned))
     \<lparr>pTable = [[], [], [], []], nextSplitIndex = 0, hashIxMask = 1,
      hashIxSplitMask = 3, nInUse = 0\<rparr> =
   (0, \<lparr>pTable = [[], [Res 1 7], [], []], nextSplitIndex = 0, hashIxMask = 1,
        hashIxSplitMask = 3, nInUse = 1\<rparr>)"
  by (simp add: table_eval)

lemma example_add2:
  "resTable_add (intId 1 32) True (Res 2 (6::unsigned))
     \<lparr>pTable = [[], [Res 1 7], [], []], nextSplitIndex = 0, hashIxMask = 1,
      hashIxSplitMask = 3, nInUse = 1\<rparr> =
   (0, \<lparr>pTable = [[Res 2 6], [Res 1 7], [], []], nextSplitIndex = 0, hashIxMask = 1,
        hashIxSplitMask = 3, nInUse = 2\<rparr>)"
  by (simp add: table_eval)

lemma example_add3:
  "resTable_add (intId 1 32) True (Res 3 (5::unsigned))
     \<lparr>pTable = [[Res 2 6], [Res 1 7], [], []], nextSplitIndex = 0, hashIxMask = 1,
      hashIxSplitMask = 3, nInUse = 2\<rparr> =
   (0, \<lparr>pTable = [[Res 3 5, Res 2 6], [Res 1 7], [], []], nextSplitIndex = 0, hashIxMask = 1,
        hashIxSplitMask = 3, nInUse = 3\<rparr>)"
  by (simp add: table_eval)

lemma example_add4:
  "resTable_add (intId 1 32) True (Res 4 (4::unsigned))
     \<lparr>pTable = [[Res 3 5, Res 2 6], [Res 1 7], [], []], nextSplitIndex = 0, hashIxMask = 1,
      hashIxSplitMask = 3, nInUse = 3\<rparr> =
   (0, \<lparr>pTable = [[Res 2 6], [Res 4 4, Res 1 7], [Res 3 5], []], nextSplitIndex = 1,
        hashIxMask = 1, hashIxSplitMask = 3, nInUse = 4\<rparr>)"
  by (simp add: table_eval)

lemma example_reachable3:
  "reachable (intId 1 32)
     \<lparr>pTable = [[Res 3 5, Res 2 6], [Res 1 (7::unsigned)], [], []], nextSplitIndex = 0,
      hashIxMask = 1, hashIxSplitMask = 3, nInUse = 3\<rparr>"
proof -
  let ?C = "intId 1 32 :: unsigned idClass"
  have "minIndexBitWidth ?C < 30" by (simp add: intId_def)
  from reachable_ctor [OF this example_ctor]
  have "reachable ?C (snd (resTable_add ?C True (Res 1 7)
      \<lparr>pTable = [[], [], [], []], nextSplitIndex = 0, hashIxMask = 1, hashIxSplitMask = 3,
       nInUse = 0\<rparr>))"
    by (rule reachable_add) simp_all
  then have "reachable ?C (snd (resTable_add ?C True (Res 2 6)
      \<lparr>pTable = [[], [Res 1 7], [], []], nextSplitIndex = 0, hashIxMask = 1,
       hashIxSplitMask = 3, nInUse = 1\<rparr>))"
    unfolding example_add1 snd_conv by (rule reachable_add) simp_all
  then have "reachable ?C (snd (resTable_add ?C True (Res 3 5)
      \<lparr>pTable = [[Res 2 6], [Res 1 7], [], []], nextSplitIndex = 0, hashIxMask = 1,
       hashIxSplitMask = 3, nInUse = 2\<rparr>))"
    unfolding example_add2 snd_conv by (rule reachable_add) simp_all
  then show ?thesis
    unfolding example_add3 snd_conv .
qed

lemma example_reachable4:
  "reachable (intId 1 32)
     \<lparr>pTable = [[Res 2 6], [Res 4 4, Res 1 (7::unsigned)], [Res 3 5], []], nextSplitIndex = 1,
      hashIxMask = 1, hashIxSplitMask = 3, nInUse = 4\<rparr>"
proof -
  have "reachable (intId 1 32) (snd (resTable_add (intId 1 32) True (Res 4 (4::unsigned))
     \<lparr>pTable = [[Res 3 5, Res 2 6], [Res 1 7], [], []], nextSplitIndex = 0, hashIxMask = 1,
      hashIxSplitMask = 3, nInUse = 3\<rparr>))"
    using example_reachable3 by (rule reachable_add) simp_all
  then show ?thesis
    unfolding example_add4 snd_conv .
qed

subsection \<open>Bucket index, invariants, construction\<close>

text \<open>
  C2. The chain that \<^verbatim>\<open>lookup\<close>, \<^verbatim>\<open>remove\<close> and \<^verbatim>\<open>add\<close> work on is the one selected by the
  bucket-index rule of the specification, \<open>h & hashIxMask\<close> if that is at least
  \<open>nextSplitIndex\<close> and \<open>h & hashIxSplitMask\<close> otherwise, with \<open>h = id.hash()\<close>; \<^verbatim>\<open>add\<close>
  applies the rule to the table as it is after its split step.
\<close>

theorem resTable_bucket_index:
  "unat (resTable_hash C t idIn) =
     bucketIndex (unat (idHash C idIn)) (unat (hashIxMask t)) (unat (hashIxSplitMask t))
       (unat (nextSplitIndex t)) \<and>
   resTable_lookup C t idIn =
     resTable_find C
       (pTable t ! bucketIndex (unat (idHash C idIn)) (unat (hashIxMask t))
          (unat (hashIxSplitMask t)) (unat (nextSplitIndex t))) idIn \<and>
   resTable_remove C t idIn =
     resTable_findDelete C t
       (bucketIndex (unat (idHash C idIn)) (unat (hashIxMask t))
          (unat (hashIxSplitMask t)) (unat (nextSplitIndex t))) idIn \<and>
   resTable_add C allocOk res t =
     (let t1 = add_splitStep C allocOk t;
          index = bucketIndex (unat (idHash C (resId res))) (unat (hashIxMask t1))
                    (unat (hashIxSplitMask t1)) (unat (nextSplitIndex t1))
      in if resTable_find C (pTable t1 ! index) (resId res) \<noteq> None then (- 1, t1)
         else (0, t1\<lparr>pTable := (pTable t1)[index := res # pTable t1 ! index],
                     nInUse := nInUse t1 + 1\<rparr>))"
  unfolding unat_resTable_hash [symmetric]
  by (simp add: resTable_lookup_def resTable_remove_def resTable_add_unfold)

text \<open>
  C3. In every table reached from the constructor by \<^verbatim>\<open>add\<close> and \<^verbatim>\<open>remove\<close> (with the split
  steps \<^verbatim>\<open>add\<close> triggers, whether or not their allocation succeeds), \<^verbatim>\<open>nInUse\<close>, the value of
  \<^verbatim>\<open>numEntriesInstalled\<close>, is the sum of the chain lengths, and every record of chain \<open>i\<close> has
  bucket index \<open>i\<close> under the current masks and split index.
\<close>

theorem resTable_invariants:
  assumes "reachable C t"
  shows "unat (resTable_numEntriesInstalled t) = sum_list (map length (pTable t)) \<and>
         (\<forall>i<length (pTable t). \<forall>r\<in>set (pTable t ! i).
            unat (resTable_hash C t (resId r)) = i)"
proof -
  from reachable_inv [OF assms] obtain k where "resTable_inv C k t" ..
  then show ?thesis
    by (simp add: resTable_inv_def resTable_consistent_def resTable_numEntriesInstalled_def
        length_concat)
qed

theorem resTable_invariants_witness:
  "reachable (intId 1 32)
     \<lparr>pTable = [[Res 2 6], [Res 4 4, Res 1 (7::unsigned)], [Res 3 5], []], nextSplitIndex = 1,
      hashIxMask = 1, hashIxSplitMask = 3, nInUse = 4\<rparr> \<and>
   unat (resTable_numEntriesInstalled
     \<lparr>pTable = [[Res 2 6], [Res 4 4, Res 1 (7::unsigned)], [Res 3 5], []], nextSplitIndex = 1,
      hashIxMask = 1, hashIxSplitMask = 3, nInUse = 4\<rparr>) = 4 \<and>
   unat (resTable_hash (intId 1 32)
     \<lparr>pTable = [[Res 2 6], [Res 4 4, Res 1 (7::unsigned)], [Res 3 5], []], nextSplitIndex = 1,
      hashIxMask = 1, hashIxSplitMask = 3, nInUse = 4\<rparr> (resId (Res 3 5))) = 2"
proof -
  let ?t = "\<lparr>pTable = [[Res 2 6], [Res 4 4, Res 1 (7::unsigned)], [Res 3 5], []],
      nextSplitIndex = 1, hashIxMask = 1, hashIxSplitMask = 3, nInUse = 4\<rparr>"
  note inv = resTable_invariants [OF example_reachable4]
  from inv have "unat (resTable_numEntriesInstalled ?t) = 4"
    by simp
  moreover have "2 < length (pTable ?t)" and "Res 3 5 \<in> set (pTable ?t ! 2)"
    by simp_all
  with inv [THEN conjunct2]
  have "unat (resTable_hash (intId 1 32) ?t (resId (Res 3 5))) = 2"
    by blast
  ultimately show ?thesis
    using example_reachable4 by simp
qed

text \<open>
  C7, as the specification states it, fails. For the default \<^verbatim>\<open>intId<unsigned>\<close> class
  (\<open>minIndexBitWidth = 4\<close>) the constructor allocates \<open>1 << 5 = 32\<close> chain heads, but the
  bucket count \<open>(hashIxMask + 1) + nextSplitIndex\<close>, which is what \<^verbatim>\<open>tableSize ()\<close> returns,
  is 16.
\<close>

theorem resTable_ctor_tableSize_counterexample:
  "resTable_ctor (intId 4 32 :: unsigned idClass) True =
     Inr \<lparr>pTable = replicate 32 [], nextSplitIndex = 0, hashIxMask = 15,
          hashIxSplitMask = 31, nInUse = 0\<rparr> \<and>
   resTable_tableSize
     \<lparr>pTable = replicate 32 ([] :: unsigned res list), nextSplitIndex = 0, hashIxMask = 15,
      hashIxSplitMask = 31, nInUse = 0\<rparr> = 16 \<and>
   (16 :: unsigned) \<noteq> push_bit (minIndexBitWidth (intId 4 32 :: unsigned idClass) + 1) 1"
  by (simp add: resTable_ctor_def resTable_tableSize_def intId_def Let_def)

text \<open>
  C7, amended. A freshly constructed table is empty (\<open>nInUse = 0\<close>, every chain empty), has
  \<open>nextSplitIndex = 0\<close> and \<open>hashIxSplitMask = 2 * (hashIxMask + 1) - 1\<close>; its bucket count
  \<open>(hashIxMask + 1) + nextSplitIndex\<close> is \<open>1 << minIndexBitWidth\<close>, and
  \<open>1 << (minIndexBitWidth + 1)\<close> is the number of chain heads it allocates.
\<close>

theorem resTable_ctor_state:
  assumes "minIndexBitWidth C < 30"
  shows "\<exists>t. resTable_ctor C True = Inr t \<and>
           nInUse t = 0 \<and> nextSplitIndex t = 0 \<and>
           hashIxSplitMask t = 2 * (hashIxMask t + 1) - 1 \<and>
           resTable_tableSize t = push_bit (minIndexBitWidth C) 1 \<and>
           unat (resTable_tableSize t) = 2 ^ minIndexBitWidth C \<and>
           length (pTable t) = 2 ^ (minIndexBitWidth C + 1) \<and>
           concat (pTable t) = []"
proof -
  define m where "m = minIndexBitWidth C"
  define t :: "'a resTable" where "t = \<lparr>pTable = replicate (unat (push_bit (m + 1) 1 - 1 + 1 :: unsigned)) [],
      nextSplitIndex = 0, hashIxMask = push_bit m 1 - 1, hashIxSplitMask = push_bit (m + 1) 1 - 1,
      nInUse = 0\<rparr>"
  have m: "m < 30" using assms by (simp add: m_def)
  have c: "resTable_ctor C True = Inr t"
    by (simp add: resTable_ctor_def Let_def t_def m_def)
  from resTable_ctor_inv [OF assms c] have sh: "resTable_shape m t"
    by (simp add: resTable_inv_def m_def)
  have "unat (resTable_tableSize t) = 2 ^ m"
    using unat_tableSize [OF sh] by (simp add: t_def)
  moreover have "length (pTable t) = 2 ^ (m + 1)"
    using sh by (simp add: resTable_shape_def)
  moreover have "concat (pTable t) = []"
    by (simp add: t_def concat_replicate_Nil)
  moreover have "hashIxSplitMask t = 2 * (hashIxMask t + 1) - 1"
    by (simp add: t_def push_bit_eq_mult)
  moreover have "resTable_tableSize t = push_bit m 1"
    by (simp add: t_def resTable_tableSize_def)
  ultimately show ?thesis
    using c by (simp add: m_def [symmetric] t_def)
qed

theorem resTable_ctor_state_witness:
  "minIndexBitWidth (intId 4 32 :: unsigned idClass) < 30 \<and>
   (\<exists>t. resTable_ctor (intId 4 32 :: unsigned idClass) True = Inr t \<and>
           nInUse t = 0 \<and> nextSplitIndex t = 0 \<and>
           hashIxSplitMask t = 2 * (hashIxMask t + 1) - 1 \<and>
           resTable_tableSize t = 16 \<and>
           unat (resTable_tableSize t) = 16 \<and>
           length (pTable t) = 32 \<and>
           concat (pTable t) = [])"
proof -
  have h: "minIndexBitWidth (intId 4 32 :: unsigned idClass) < 30"
    by (simp add: intId_def)
  from resTable_ctor_state [OF h] h show ?thesis
    by (simp add: intId_def)
qed

subsection \<open>Round trip and duplicates\<close>

lemma resTable_add_success:
  assumes inv: "resTable_inv C k t" and bound: "unat (nInUse t) < 2 ^ 30"
    and none: "\<forall>x\<in>set (concat (pTable t)). \<not> idEq C (resId x) (resId res)"
  shows "resTable_add C allocOk res t =
         (0, (add_splitStep C allocOk t)
               \<lparr>pTable := (pTable (add_splitStep C allocOk t))
                  [unat (resTable_hash C (add_splitStep C allocOk t) (resId res)) :=
                     res # pTable (add_splitStep C allocOk t) !
                       unat (resTable_hash C (add_splitStep C allocOk t) (resId res))],
                nInUse := nInUse (add_splitStep C allocOk t) + 1\<rparr>)"
proof -
  note sp = add_splitStep_props [OF inv bound, of allocOk]
  from sp(1) obtain k' where "resTable_inv C k' (add_splitStep C allocOk t)" ..
  then have sh: "resTable_shape k' (add_splitStep C allocOk t)"
    by (simp add: resTable_inv_def)
  have "\<forall>x\<in>set (concat (pTable (add_splitStep C allocOk t))). \<not> idEq C (resId x) (resId res)"
    using none unfolding sp(2) .
  from chain_find_None [OF sh this] show ?thesis
    by (simp add: resTable_add_unfold Let_def)
qed

text \<open>
  C1, as the specification states it, fails for an identifier that does not compare
  equal to itself. A \<^verbatim>\<open>stringId\<close> with a null pointer is one: added to the fresh
  \<^verbatim>\<open>resTable<T, stringId>\<close> (512 chain heads) the record goes to chain 0 with status 0, and
  \<^verbatim>\<open>lookup\<close> with the same identifier returns null.
\<close>

theorem resTable_round_trip_counterexample:
  "resTable_ctor stringId True =
     Inr \<lparr>pTable = replicate 512 [], nextSplitIndex = 0, hashIxMask = 255,
          hashIxSplitMask = 511, nInUse = 0\<rparr> \<and>
   resTable_add stringId True (Res 1 None)
     \<lparr>pTable = replicate 512 [], nextSplitIndex = 0, hashIxMask = 255,
      hashIxSplitMask = 511, nInUse = 0\<rparr> =
     (0, \<lparr>pTable = (replicate 512 [])[0 := [Res 1 None]], nextSplitIndex = 0,
          hashIxMask = 255, hashIxSplitMask = 511, nInUse = 1\<rparr>) \<and>
   resTable_lookup stringId
     \<lparr>pTable = (replicate 512 [])[0 := [Res 1 None]], nextSplitIndex = 0,
      hashIxMask = 255, hashIxSplitMask = 511, nInUse = 1\<rparr> None = None"
  by (simp add: resTable_ctor_def resTable_add_def resTable_lookup_def resTable_hash_def
      resTable_tableSize_def stringId_def stringId_hash_def stringId_eq_def
      stringIdMinIndexWidth_def tsSLList_add_def Let_def)

text \<open>
  C1, amended. In a reachable table with fewer than \<open>2 ^ 30\<close> records, for an identifier
  \<open>id\<close> that compares equal to itself (every integer identifier, every string
  identifier with a non-null pointer) and to which no live record's identifier compares
  equal, and a record \<open>r\<close> with \<open>r.id = id\<close>: \<^verbatim>\<open>add(r)\<close> returns 0, then \<^verbatim>\<open>lookup(id)\<close>
  returns \<open>r\<close>, then \<^verbatim>\<open>remove(id)\<close> returns \<open>r\<close>, and after it \<^verbatim>\<open>lookup(id)\<close> returns null.
\<close>

theorem resTable_round_trip:
  assumes reach: "reachable C t" and bound: "unat (nInUse t) < 2 ^ 30"
    and refl: "idEq C idv idv"
    and fresh: "\<forall>x\<in>set (concat (pTable t)). \<not> idEq C (resId x) idv"
  shows "\<exists>t1 t2. resTable_add C allocOk (Res a idv) t = (0, t1) \<and>
           resTable_lookup C t1 idv = Some (Res a idv) \<and>
           resTable_remove C t1 idv = (Some (Res a idv), t2) \<and>
           resTable_lookup C t2 idv = None"
proof -
  from reachable_inv [OF reach] obtain k where inv: "resTable_inv C k t" ..
  define t0 where "t0 = add_splitStep C allocOk t"
  define i where "i = unat (resTable_hash C t0 idv)"
  define t1 where "t1 = t0\<lparr>pTable := (pTable t0)[i := Res a idv # pTable t0 ! i],
      nInUse := nInUse t0 + 1\<rparr>"
  define t2 where "t2 = t1\<lparr>pTable := (pTable t1)[i := pTable t0 ! i], nInUse := nInUse t1 - 1\<rparr>"
  note sp = add_splitStep_props [OF inv bound, of allocOk]
  from sp(1) obtain k' where "resTable_inv C k' t0"
    unfolding t0_def ..
  then have sh: "resTable_shape k' t0"
    by (simp add: resTable_inv_def)
  have il: "i < length (pTable t0)"
    unfolding i_def by (rule shape_hash_range(2) [OF sh])
  have "\<forall>x\<in>set (concat (pTable t0)). \<not> idEq C (resId x) idv"
    using fresh unfolding t0_def sp(2) .
  from chain_find_None [OF sh this]
  have none: "resTable_find C (pTable t0 ! i) idv = None"
    by (simp add: i_def)
  have h1: "resTable_hash C t1 = resTable_hash C t0"
    by (simp add: t1_def)
  have h2: "resTable_hash C t2 = resTable_hash C t0"
    by (simp add: t2_def h1)
  have "resTable_add C allocOk (Res a idv) t = (0, t1)"
    using resTable_add_success [OF inv bound, of "Res a idv" allocOk] fresh
    by (simp add: t1_def t0_def i_def)
  moreover have "resTable_lookup C t1 idv = Some (Res a idv)"
    using il refl by (simp add: resTable_lookup_def h1 i_def [symmetric] t1_def)
  moreover have "resTable_remove C t1 idv = (Some (Res a idv), t2)"
    using il refl
    by (simp add: resTable_remove_def resTable_findDelete_def h1 i_def [symmetric] t1_def t2_def)
  moreover have "resTable_lookup C t2 idv = None"
    using il none by (simp add: resTable_lookup_def h2 i_def [symmetric] t2_def t1_def)
  ultimately show ?thesis by blast
qed

theorem resTable_round_trip_witness:
  "reachable (intId 1 32)
     \<lparr>pTable = [[Res 3 5, Res 2 6], [Res 1 (7::unsigned)], [], []], nextSplitIndex = 0,
      hashIxMask = 1, hashIxSplitMask = 3, nInUse = 3\<rparr> \<and>
   unat (nInUse
     \<lparr>pTable = [[Res 3 5, Res 2 6], [Res 1 (7::unsigned)], [], []], nextSplitIndex = 0,
      hashIxMask = 1, hashIxSplitMask = 3, nInUse = 3\<rparr>) < 2 ^ 30 \<and>
   idEq (intId 1 32) (4::unsigned) 4 \<and>
   list_all (\<lambda>x. \<not> idEq (intId 1 32) (resId x) 4) (concat (pTable
      \<lparr>pTable = [[Res 3 5, Res 2 6], [Res 1 (7::unsigned)], [], []], nextSplitIndex = 0,
       hashIxMask = 1, hashIxSplitMask = 3, nInUse = 3\<rparr>)) \<and>
   (\<exists>t1 t2.
      resTable_add (intId 1 32) True (Res 4 4)
        \<lparr>pTable = [[Res 3 5, Res 2 6], [Res 1 (7::unsigned)], [], []], nextSplitIndex = 0,
         hashIxMask = 1, hashIxSplitMask = 3, nInUse = 3\<rparr> = (0, t1) \<and>
      resTable_lookup (intId 1 32) t1 4 = Some (Res 4 4) \<and>
      resTable_remove (intId 1 32) t1 4 = (Some (Res 4 4), t2) \<and>
      resTable_lookup (intId 1 32) t2 4 = None)"
proof -
  let ?C = "intId 1 32 :: unsigned idClass"
  let ?t = "\<lparr>pTable = [[Res 3 5, Res 2 6], [Res 1 (7::unsigned)], [], []], nextSplitIndex = 0,
      hashIxMask = 1, hashIxSplitMask = 3, nInUse = 3\<rparr>"
  have b: "unat (nInUse ?t) < 2 ^ 30" by simp
  have r: "idEq ?C 4 4" by (simp add: intId_def)
  have f: "\<forall>x\<in>set (concat (pTable ?t)). \<not> idEq ?C (resId x) 4"
    by (simp add: intId_def)
  have f': "list_all (\<lambda>x. \<not> idEq ?C (resId x) 4) (concat (pTable ?t))"
    by (simp add: intId_def)
  from resTable_round_trip [OF example_reachable3 b r f, of True 4] example_reachable3 b r f'
  show ?thesis by blast
qed

text \<open>
  C4, as the specification states it, fails: \<^verbatim>\<open>add\<close> runs its split step before it scans
  for a duplicate. The table below (reached by adding the identifiers 7, 6 and 5) holds
  3 records on 2 buckets; adding a second record with identifier 7 returns \<open>-1\<close> and
  leaves chain 0 split and \<^verbatim>\<open>nextSplitIndex\<close> at 1.
\<close>

theorem resTable_add_duplicate_counterexample:
  "reachable (intId 1 32)
     \<lparr>pTable = [[Res 3 5, Res 2 6], [Res 1 (7::unsigned)], [], []], nextSplitIndex = 0,
      hashIxMask = 1, hashIxSplitMask = 3, nInUse = 3\<rparr> \<and>
   resTable_add (intId 1 32) True (Res 4 7)
     \<lparr>pTable = [[Res 3 5, Res 2 6], [Res 1 (7::unsigned)], [], []], nextSplitIndex = 0,
      hashIxMask = 1, hashIxSplitMask = 3, nInUse = 3\<rparr> =
     (- 1, \<lparr>pTable = [[Res 2 6], [Res 1 7], [Res 3 5], []], nextSplitIndex = 1,
            hashIxMask = 1, hashIxSplitMask = 3, nInUse = 3\<rparr>) \<and>
   \<lparr>pTable = [[Res 2 6], [Res 1 (7::unsigned)], [Res 3 5], []], nextSplitIndex = 1,
    hashIxMask = 1, hashIxSplitMask = 3, nInUse = (3::unsigned)\<rparr> \<noteq>
   \<lparr>pTable = [[Res 3 5, Res 2 6], [Res 1 7], [], []], nextSplitIndex = 0,
    hashIxMask = 1, hashIxSplitMask = 3, nInUse = 3\<rparr>"
  using example_reachable3 by (simp add: table_eval)

text \<open>
  C4, amended. \<^verbatim>\<open>add\<close> first runs a split step when \<open>nInUse > tableSize()\<close>, then computes
  the bucket index and scans that chain. In a reachable table with fewer than \<open>2 ^ 30\<close>
  records, for an identifier class whose equal identifiers hash alike: when the record's
  identifier compares equal to a live record's, \<^verbatim>\<open>add\<close> returns \<open>-1\<close> and the table is the
  one its split step left. That step changes neither \<^verbatim>\<open>nInUse\<close> nor the set of live
  records, and when no split was due the whole table state is unchanged.
\<close>

theorem resTable_add_duplicate:
  assumes reach: "reachable C t" and bound: "unat (nInUse t) < 2 ^ 30"
    and respects: "\<forall>a b. idEq C a b \<longrightarrow> idHash C a = idHash C b"
    and dup: "\<exists>x\<in>set (concat (pTable t)). idEq C (resId x) (resId res)"
  shows "resTable_add C allocOk res t = (- 1, add_splitStep C allocOk t) \<and>
         nInUse (add_splitStep C allocOk t) = nInUse t \<and>
         set (concat (pTable (add_splitStep C allocOk t))) = set (concat (pTable t)) \<and>
         (\<not> nInUse t > resTable_tableSize t \<longrightarrow> add_splitStep C allocOk t = t)"
proof -
  from reachable_inv [OF reach] obtain k where inv: "resTable_inv C k t" ..
  note sp = add_splitStep_props [OF inv bound, of allocOk]
  from sp(1) obtain k' where inv': "resTable_inv C k' (add_splitStep C allocOk t)" ..
  have "\<exists>x\<in>set (concat (pTable (add_splitStep C allocOk t))). idEq C (resId x) (resId res)"
    using dup unfolding sp(2) .
  then have "resTable_find C
      (pTable (add_splitStep C allocOk t) !
         unat (resTable_hash C (add_splitStep C allocOk t) (resId res))) (resId res) \<noteq> None"
    unfolding bucket_find_None_iff [OF inv' respects] by blast
  then have "resTable_add C allocOk res t = (- 1, add_splitStep C allocOk t)"
    by (simp add: resTable_add_unfold Let_def)
  moreover have "\<not> nInUse t > resTable_tableSize t \<longrightarrow> add_splitStep C allocOk t = t"
    by (simp add: add_splitStep_def)
  ultimately show ?thesis
    using sp(2) sp(3) by blast
qed

theorem resTable_add_duplicate_witness:
  "reachable (intId 1 32)
     \<lparr>pTable = [[Res 3 5, Res 2 6], [Res 1 (7::unsigned)], [], []], nextSplitIndex = 0,
      hashIxMask = 1, hashIxSplitMask = 3, nInUse = 3\<rparr> \<and>
   unat (nInUse
     \<lparr>pTable = [[Res 3 5, Res 2 6], [Res 1 (7::unsigned)], [], []], nextSplitIndex = 0,
      hashIxMask = 1, hashIxSplitMask = 3, nInUse = 3\<rparr>) < 2 ^ 30 \<and>
   idEq (intId 1 32) = (\<lambda>a b :: unsigned. a = b) \<and>
   Res 1 7 \<in> set (concat (pTable
      \<lparr>pTable = [[Res 3 5, Res 2 6], [Res 1 (7::unsigned)], [], []], nextSplitIndex = 0,
       hashIxMask = 1, hashIxSplitMask = 3, nInUse = 3\<rparr>)) \<and>
   idEq (intId 1 32) (resId (Res 1 (7::unsigned))) (resId (Res 4 (7::unsigned))) \<and>
   resTable_add (intId 1 32) True (Res 4 7)
     \<lparr>pTable = [[Res 3 5, Res 2 6], [Res 1 (7::unsigned)], [], []], nextSplitIndex = 0,
      hashIxMask = 1, hashIxSplitMask = 3, nInUse = 3\<rparr> =
     (- 1, add_splitStep (intId 1 32) True
        \<lparr>pTable = [[Res 3 5, Res 2 6], [Res 1 (7::unsigned)], [], []], nextSplitIndex = 0,
         hashIxMask = 1, hashIxSplitMask = 3, nInUse = 3\<rparr>)"
proof -
  let ?C = "intId 1 32 :: unsigned idClass"
  let ?t = "\<lparr>pTable = [[Res 3 5, Res 2 6], [Res 1 (7::unsigned)], [], []], nextSplitIndex = 0,
      hashIxMask = 1, hashIxSplitMask = 3, nInUse = 3\<rparr>"
  have b: "unat (nInUse ?t) < 2 ^ 30" by simp
  have r: "\<forall>a b. idEq ?C a b \<longrightarrow> idHash ?C a = idHash ?C b"
    by (simp add: intId_def)
  have d: "\<exists>x\<in>set (concat (pTable ?t)). idEq ?C (resId x) (resId (Res 4 7))"
    by (simp add: intId_def)
  have e: "idEq ?C = (\<lambda>a b. a = b)"
    and m: "Res 1 7 \<in> set (concat (pTable ?t))"
    and q: "idEq ?C (resId (Res 1 (7::unsigned))) (resId (Res 4 (7::unsigned)))"
    by (simp_all add: intId_def)
  from resTable_add_duplicate [OF example_reachable3 b r d, of True] example_reachable3 b e m q
  show ?thesis by blast
qed

subsection \<open>Null string identifiers\<close>

lemma stringId_eq_null: "\<not> stringId_eq None x" "\<not> stringId_eq x None"
  by (simp_all add: stringId_eq_def split: option.splits)

lemma resTable_find_null:
  "resTable_find stringId chain q \<noteq> Some (Res a None)"
proof
  assume "resTable_find stringId chain q = Some (Res a None)"
  from resTable_find_Some [OF this] show False
    by (simp add: stringId_def stringId_eq_null)
qed

lemma resTable_find_for_null:
  "resTable_find stringId chain None = None"
  unfolding resTable_find_None_iff by (simp add: stringId_def stringId_eq_null)

text \<open>
  C10. \<^verbatim>\<open>stringId::operator ==\<close> is false whenever either pointer is null, so a null-backed
  identifier does not equal itself. Such an identifier has bucket index 0 in every
  table; no \<^verbatim>\<open>lookup\<close> and no \<^verbatim>\<open>remove\<close>, whatever the query, returns a record that carries
  one; and \<^verbatim>\<open>add\<close> of a record that carries one never reports a duplicate, whatever the
  table already holds.
\<close>

theorem stringId_null_unreachable:
  "\<not> stringId_eq None x \<and> \<not> stringId_eq x None \<and>
   resTable_hash stringId t None = 0 \<and>
   resTable_lookup stringId t q \<noteq> Some (Res a None) \<and>
   fst (resTable_remove stringId t q) \<noteq> Some (Res a None) \<and>
   fst (resTable_add stringId allocOk (Res a None) t) = 0"
proof -
  have "resTable_hash stringId t None = 0"
    by (simp add: resTable_hash_def stringId_def stringId_hash_def)
  moreover have "resTable_lookup stringId t q \<noteq> Some (Res a None)"
    unfolding resTable_lookup_def by (rule resTable_find_null)
  moreover have "fst (resTable_remove stringId t q) \<noteq> Some (Res a None)"
  proof -
    have "fst (resTable_remove stringId t q) =
          resTable_find stringId (pTable t ! unat (resTable_hash stringId t q)) q"
      unfolding resTable_remove_def resTable_findDelete_def
      using findDelete_chain_fst [of stringId "pTable t ! unat (resTable_hash stringId t q)" q]
      by (auto split: prod.splits option.splits)
    then show ?thesis
      by (simp only: resTable_find_null not_False_eq_True)
  qed
  moreover have "fst (resTable_add stringId allocOk (Res a None) t) = 0"
    by (simp add: resTable_add_unfold Let_def resTable_find_for_null)
  ultimately show ?thesis
    by (simp add: stringId_eq_null)
qed

text \<open>The same on the fresh table: two records with null-backed identifiers are both
  accepted, both land in chain 0, and neither is found again.\<close>

lemma stringId_null_example:
  "resTable_add stringId True (Res 2 None)
     \<lparr>pTable = (replicate 512 [])[0 := [Res 1 None]], nextSplitIndex = 0,
      hashIxMask = 255, hashIxSplitMask = 511, nInUse = 1\<rparr> =
     (0, \<lparr>pTable = (replicate 512 [])[0 := [Res 2 None, Res 1 None]], nextSplitIndex = 0,
          hashIxMask = 255, hashIxSplitMask = 511, nInUse = 2\<rparr>) \<and>
   resTable_lookup stringId
     \<lparr>pTable = (replicate 512 [])[0 := [Res 2 None, Res 1 None]], nextSplitIndex = 0,
      hashIxMask = 255, hashIxSplitMask = 511, nInUse = 2\<rparr> None = None \<and>
   resTable_remove stringId
     \<lparr>pTable = (replicate 512 [])[0 := [Res 2 None, Res 1 None]], nextSplitIndex = 0,
      hashIxMask = 255, hashIxSplitMask = 511, nInUse = 2\<rparr> None =
     (None, \<lparr>pTable = (replicate 512 [])[0 := [Res 2 None, Res 1 None]], nextSplitIndex = 0,
             hashIxMask = 255, hashIxSplitMask = 511, nInUse = 2\<rparr>)"
  by (simp add: resTable_add_def resTable_lookup_def resTable_remove_def
      resTable_findDelete_def resTable_hash_def
      resTable_tableSize_def stringId_def stringId_hash_def stringId_eq_def
      tsSLList_add_def Let_def)

subsection \<open>The chronological table\<close>

lemma resTable_add_success_props:
  assumes inv: "resTable_inv C k t" and bound: "unat (nInUse t) < 2 ^ 30"
    and none: "\<forall>x\<in>set (concat (pTable t)). \<not> idEq C (resId x) (resId res)"
  shows "fst (resTable_add C allocOk res t) = 0"
    and "set (concat (pTable (snd (resTable_add C allocOk res t)))) =
         insert res (set (concat (pTable t)))"
    and "nInUse (snd (resTable_add C allocOk res t)) = nInUse t + 1"
proof -
  define t0 where "t0 = add_splitStep C allocOk t"
  define i where "i = unat (resTable_hash C t0 (resId res))"
  note sp = add_splitStep_props [OF inv bound, of allocOk]
  from sp(1) obtain k' where "resTable_inv C k' t0"
    unfolding t0_def ..
  then have sh: "resTable_shape k' t0"
    by (simp add: resTable_inv_def)
  have il: "i < length (pTable t0)"
    unfolding i_def by (rule shape_hash_range(2) [OF sh])
  have eq: "resTable_add C allocOk res t =
      (0, t0\<lparr>pTable := (pTable t0)[i := res # pTable t0 ! i], nInUse := nInUse t0 + 1\<rparr>)"
    using resTable_add_success [OF inv bound none, of allocOk] by (simp add: t0_def i_def)
  show "fst (resTable_add C allocOk res t) = 0"
    by (simp add: eq)
  show "set (concat (pTable (snd (resTable_add C allocOk res t)))) =
        insert res (set (concat (pTable t)))"
    using set_concat_push [OF il, of res] sp(2)
    by (simp add: eq t0_def del: set_concat)
  show "nInUse (snd (resTable_add C allocOk res t)) = nInUse t + 1"
    using sp(3) by (simp add: eq t0_def)
qed

lemma resTable_add_duplicate_props:
  assumes inv: "resTable_inv C k t" and bound: "unat (nInUse t) < 2 ^ 30"
    and respects: "\<forall>a b. idEq C a b \<longrightarrow> idHash C a = idHash C b"
    and dup: "\<exists>x\<in>set (concat (pTable t)). idEq C (resId x) (resId res)"
  shows "fst (resTable_add C allocOk res t) = - 1"
    and "set (concat (pTable (snd (resTable_add C allocOk res t)))) = set (concat (pTable t))"
    and "nInUse (snd (resTable_add C allocOk res t)) = nInUse t"
proof -
  note sp = add_splitStep_props [OF inv bound, of allocOk]
  from sp(1) obtain k' where inv': "resTable_inv C k' (add_splitStep C allocOk t)" ..
  have "\<exists>x\<in>set (concat (pTable (add_splitStep C allocOk t))). idEq C (resId x) (resId res)"
    using dup unfolding sp(2) .
  then have "resTable_find C
      (pTable (add_splitStep C allocOk t) !
         unat (resTable_hash C (add_splitStep C allocOk t) (resId res))) (resId res) \<noteq> None"
    unfolding bucket_find_None_iff [OF inv' respects] by blast
  then have eq: "resTable_add C allocOk res t = (- 1, add_splitStep C allocOk t)"
    by (simp add: resTable_add_unfold Let_def)
  show "fst (resTable_add C allocOk res t) = - 1"
    by (simp add: eq)
  show "set (concat (pTable (snd (resTable_add C allocOk res t)))) = set (concat (pTable t))"
    using sp(2) by (simp add: eq del: set_concat)
  show "nInUse (snd (resTable_add C allocOk res t)) = nInUse t"
    using sp(3) by (simp add: eq)
qed

lemma chronIntId_eq [simp]: "idEq chronIntId a b \<longleftrightarrow> a = b"
  by (simp add: chronIntId_def intId_def)

lemma chronIntId_respects: "\<forall>a b. idEq chronIntId a b \<longrightarrow> idHash chronIntId a = idHash chronIntId b"
  by simp

lemma not_in_by_addr: "a \<notin> resAddr ` S \<Longrightarrow> Res a v \<notin> S"
  by force

lemma chron_loop:
  assumes "reachable chronIntId (table c)"
    and "unat (nInUse (table c)) < 2 ^ 30"
    and "resAddr item \<notin> resAddr ` set (concat (pTable (table c)))"
    and "allocId c + of_nat j \<notin> resId ` set (concat (pTable (table c)))"
    and "\<forall>i<j. allocId c + of_nat i \<in> resId ` set (concat (pTable (table c)))"
  shows "\<exists>c'. chronIntIdResTable_add al n c item =
                Some (c', Res (resAddr item) (allocId c + of_nat j)) \<and>
              allocId c' = allocId c + of_nat j + 1 \<and>
              reachable chronIntId (table c') \<and>
              set (concat (pTable (table c'))) =
                insert (Res (resAddr item) (allocId c + of_nat j))
                  (set (concat (pTable (table c)))) \<and>
              nInUse (table c') = nInUse (table c) + 1"
  using assms
proof (induction j arbitrary: c n item)
  case 0
  define item' where "item' = Res (resAddr item) (allocId c)"
  define r where "r = resTable_add chronIntId (al n) item' (table c)"
  define c' where "c' = c\<lparr>table := snd r, allocId := allocId c + 1\<rparr>"
  from reachable_inv [OF "0.prems"(1)] obtain k where inv: "resTable_inv chronIntId k (table c)" ..
  have none: "\<forall>x\<in>set (concat (pTable (table c))). \<not> idEq chronIntId (resId x) (resId item')"
  proof (intro ballI notI)
    fix x
    assume x: "x \<in> set (concat (pTable (table c)))"
      and "idEq chronIntId (resId x) (resId item')"
    then have "allocId c = resId x"
      by (simp add: item'_def)
    with x have "allocId c \<in> resId ` set (concat (pTable (table c)))"
      by (simp only: image_eqI)
    with "0.prems"(4) show False by simp
  qed
  note ok = resTable_add_success_props [OF inv "0.prems"(2) none, of "al n", folded r_def]
  have nin: "item' \<notin> set (concat (pTable (table c)))"
    unfolding item'_def by (rule not_in_by_addr [OF "0.prems"(3)])
  have reach: "reachable chronIntId (snd r)"
    unfolding r_def by (rule reachable_add [OF "0.prems"(1) "0.prems"(2) nin])
  have "chronIntIdResTable_add al n c item = Some (c', item')"
    by (subst chronIntIdResTable_add.simps)
      (simp add: Let_def setId_def item'_def [symmetric] r_def [symmetric] ok(1) c'_def)
  then show ?case
    using ok reach by (intro exI [of _ c']) (simp add: c'_def item'_def del: set_concat)
next
  case (Suc j)
  define item' where "item' = Res (resAddr item) (allocId c)"
  define r where "r = resTable_add chronIntId (al n) item' (table c)"
  define c1 where "c1 = c\<lparr>table := snd r, allocId := allocId c + 1\<rparr>"
  from reachable_inv [OF Suc.prems(1)] obtain k where inv: "resTable_inv chronIntId k (table c)" ..
  have "allocId c + of_nat 0 \<in> resId ` set (concat (pTable (table c)))"
    using Suc.prems(5) by blast
  then obtain x where "x \<in> set (concat (pTable (table c)))" and "resId x = allocId c"
    by (auto simp del: set_concat)
  then have dup: "\<exists>x\<in>set (concat (pTable (table c))). idEq chronIntId (resId x) (resId item')"
    by (intro bexI [of _ x]) (simp_all add: item'_def)
  note d = resTable_add_duplicate_props [OF inv Suc.prems(2) chronIntId_respects dup, of "al n",
      folded r_def]
  have nin: "item' \<notin> set (concat (pTable (table c)))"
    unfolding item'_def by (rule not_in_by_addr [OF Suc.prems(3)])
  have reach: "reachable chronIntId (snd r)"
    unfolding r_def by (rule reachable_add [OF Suc.prems(1) Suc.prems(2) nin])
  have step: "chronIntIdResTable_add al n c item = chronIntIdResTable_add al (Suc n) c1 item'"
    by (subst chronIntIdResTable_add.simps)
      (simp add: Let_def setId_def item'_def [symmetric] r_def [symmetric] d(1) c1_def)
  have p1: "reachable chronIntId (table c1)"
    using reach by (simp add: c1_def)
  have p2: "unat (nInUse (table c1)) < 2 ^ 30"
    using Suc.prems(2) d(3) by (simp add: c1_def)
  have p3: "resAddr item' \<notin> resAddr ` set (concat (pTable (table c1)))"
    using Suc.prems(3) d(2) by (simp add: c1_def item'_def del: set_concat)
  have shift: "allocId c1 + of_nat i = allocId c + of_nat (Suc i)" for i
    by (simp add: c1_def)
  have p4: "allocId c1 + of_nat j \<notin> resId ` set (concat (pTable (table c1)))"
    using Suc.prems(4) d(2) unfolding shift by (simp add: c1_def del: set_concat of_nat_Suc)
  have p5: "\<forall>i<j. allocId c1 + of_nat i \<in> resId ` set (concat (pTable (table c1)))"
    using Suc.prems(5) d(2) unfolding shift by (simp add: c1_def del: set_concat of_nat_Suc)
  from Suc.IH [OF p1 p2 p3 p4 p5, of "Suc n"]
  obtain c' where c': "chronIntIdResTable_add al (Suc n) c1 item' =
        Some (c', Res (resAddr item') (allocId c1 + of_nat j))"
      "allocId c' = allocId c1 + of_nat j + 1"
      "reachable chronIntId (table c')"
      "set (concat (pTable (table c'))) =
         insert (Res (resAddr item') (allocId c1 + of_nat j)) (set (concat (pTable (table c1))))"
      "nInUse (table c') = nInUse (table c1) + 1"
    by blast
  have a: "resAddr item' = resAddr item"
    by (simp add: item'_def)
  show ?case
    using c' d(2) d(3) unfolding step shift a
    by (intro exI [of _ c']) (simp add: c1_def del: set_concat of_nat_Suc)
qed

lemma of_nat_inj32:
  assumes "i < 2 ^ 32" and "j < 2 ^ 32" and "(of_nat i :: unsigned) = of_nat j"
  shows "i = j"
proof -
  have "unat (of_nat i :: unsigned) = unat (of_nat j :: unsigned)"
    using assms(3) by simp
  then show ?thesis
    using assms(1,2) by (simp only: unat_of_nat) simp
qed

lemma free_id_exists:
  fixes L :: "unsigned set"
  assumes fin: "finite L" and small: "card L < 2 ^ 32"
  shows "\<exists>j\<le>card L. a + of_nat j \<notin> L \<and> (\<forall>i<j. a + of_nat i \<in> L)"
proof -
  have ex: "\<exists>j\<le>card L. a + of_nat j \<notin> L"
  proof (rule ccontr)
    assume "\<not> (\<exists>j\<le>card L. a + of_nat j \<notin> L)"
    then have sub: "(\<lambda>j. a + of_nat j) ` {..card L} \<subseteq> L"
      by auto
    have "inj_on (\<lambda>j. a + (of_nat j :: unsigned)) {..card L}"
    proof (rule inj_onI)
      fix i j
      assume "i \<in> {..card L}" and "j \<in> {..card L}"
        and "a + (of_nat i :: unsigned) = a + of_nat j"
      then show "i = j"
        using small by (intro of_nat_inj32) simp_all
    qed
    then have "card ((\<lambda>j. a + (of_nat j :: unsigned)) ` {..card L}) = Suc (card L)"
      by (simp add: card_image)
    with card_mono [OF fin sub] show False by simp
  qed
  define j where "j = (LEAST j. a + of_nat j \<notin> L)"
  from ex obtain j0 where j0: "j0 \<le> card L" "a + of_nat j0 \<notin> L" by blast
  have "a + of_nat j \<notin> L"
    unfolding j_def using j0(2) by (rule LeastI)
  moreover have "j \<le> card L"
    unfolding j_def using Least_le [of "\<lambda>j. a + of_nat j \<notin> L" j0] j0 by simp
  moreover have "\<forall>i<j. a + of_nat i \<in> L"
    unfolding j_def using not_less_Least by blast
  ultimately show ?thesis by blast
qed

lemma card_ids_le:
  "card (resId ` set (concat (pTable t))) \<le> length (concat (pTable t))"
  by (rule order_trans [OF card_image_le card_length]) simp

lemma chron_add_props:
  assumes reach: "reachable chronIntId (table c)"
    and bound: "unat (nInUse (table c)) < 2 ^ 30"
    and fresh: "resAddr item \<notin> resAddr ` set (concat (pTable (table c)))"
  shows "\<exists>j c'. j \<le> unat (nInUse (table c)) \<and>
            chronIntIdResTable_add al n c item = Some (c', setId (allocId c + of_nat j) item) \<and>
            allocId c' = allocId c + of_nat j + 1 \<and>
            allocId c + of_nat j \<notin> resId ` set (concat (pTable (table c))) \<and>
            (\<forall>i<j. allocId c + of_nat i \<in> resId ` set (concat (pTable (table c)))) \<and>
            reachable chronIntId (table c') \<and>
            set (concat (pTable (table c'))) =
              insert (setId (allocId c + of_nat j) item) (set (concat (pTable (table c))))"
proof -
  define L where "L = resId ` set (concat (pTable (table c)))"
  from reachable_inv [OF reach] obtain k where "resTable_inv chronIntId k (table c)" ..
  then have cnt: "unat (nInUse (table c)) = length (concat (pTable (table c)))"
    by (simp add: resTable_inv_def)
  have cl: "card L \<le> unat (nInUse (table c))"
    unfolding L_def cnt by (rule card_ids_le)
  have "finite L" by (simp add: L_def)
  moreover have "card L < 2 ^ 32"
    using cl bound by simp
  ultimately obtain j where j: "j \<le> card L" "allocId c + of_nat j \<notin> L"
      "\<forall>i<j. allocId c + of_nat i \<in> L"
    using free_id_exists [of L "allocId c"] by blast
  from chron_loop [OF reach bound fresh j(2) [unfolded L_def] j(3) [unfolded L_def], of al n]
  obtain c' where "chronIntIdResTable_add al n c item =
        Some (c', Res (resAddr item) (allocId c + of_nat j))"
      "allocId c' = allocId c + of_nat j + 1"
      "reachable chronIntId (table c')"
      "set (concat (pTable (table c'))) =
         insert (Res (resAddr item) (allocId c + of_nat j)) (set (concat (pTable (table c))))"
    by blast
  with j cl show ?thesis
    unfolding L_def setId_def by (intro exI [of _ j] exI [of _ c']) (simp del: set_concat)
qed

text \<open>
  C9. The chronological table starts with \<^verbatim>\<open>allocId = 1\<close>. On a reachable table with fewer
  than \<open>2 ^ 30\<close> records, \<^verbatim>\<open>add\<close> of an item that is not already linked returns: it tries the
  counter values \<open>allocId, allocId + 1, ...\<close> in turn (32-bit wrap-around included), skips
  the \<open>j\<close> of them that are identifiers of live records, gives the item the first free
  value \<open>allocId + j\<close>, links it, and leaves the counter at \<open>allocId + j + 1\<close>. The next
  insertion, under the same conditions, therefore receives the identifier of this one
  plus a step \<open>d\<close> with \<open>1 \<le> d \<le> 2 ^ 30\<close>: successive identifiers increase strictly modulo
  \<open>2 ^ 32\<close>.
\<close>

theorem chronIntIdResTable_add_allocates:
  assumes reach: "reachable chronIntId (table c)"
    and bound: "unat (nInUse (table c)) < 2 ^ 30"
    and fresh: "resAddr item \<notin> resAddr ` set (concat (pTable (table c)))"
  shows "(\<exists>c0. chronIntIdResTable_ctor True = Inr c0 \<and> allocId c0 = 1 \<and>
            reachable chronIntId (table c0)) \<and>
         (\<exists>j c'. j \<le> unat (nInUse (table c)) \<and>
            chronIntIdResTable_add al n c item = Some (c', setId (allocId c + of_nat j) item) \<and>
            allocId c' = allocId c + of_nat j + 1 \<and>
            allocId c + of_nat j \<notin> resId ` set (concat (pTable (table c))) \<and>
            (\<forall>i<j. allocId c + of_nat i \<in> resId ` set (concat (pTable (table c)))) \<and>
            reachable chronIntId (table c') \<and>
            set (concat (pTable (table c'))) =
              insert (setId (allocId c + of_nat j) item) (set (concat (pTable (table c)))) \<and>
            (\<forall>al' n' item'.
               unat (nInUse (table c')) < 2 ^ 30 \<and>
               resAddr item' \<notin> resAddr ` set (concat (pTable (table c'))) \<longrightarrow>
               (\<exists>d c''. 1 \<le> d \<and> d \<le> 2 ^ 30 \<and>
                  chronIntIdResTable_add al' n' c' item' =
                    Some (c'', setId (allocId c + of_nat j + of_nat d) item'))))"
proof
  have m: "minIndexBitWidth chronIntId < 30"
    by (simp add: chronIntId_def intId_def)
  obtain t where t: "resTable_ctor chronIntId True = Inr t"
    by (simp add: resTable_ctor_def Let_def)
  have "reachable chronIntId t"
    by (rule reachable_ctor [OF m t])
  with t show "\<exists>c0. chronIntIdResTable_ctor True = Inr c0 \<and> allocId c0 = 1 \<and>
      reachable chronIntId (table c0)"
    by (simp add: chronIntIdResTable_ctor_def)
next
  from chron_add_props [OF reach bound fresh, of al n]
  obtain j c' where first: "j \<le> unat (nInUse (table c))"
      "chronIntIdResTable_add al n c item = Some (c', setId (allocId c + of_nat j) item)"
      "allocId c' = allocId c + of_nat j + 1"
      "allocId c + of_nat j \<notin> resId ` set (concat (pTable (table c)))"
      "\<forall>i<j. allocId c + of_nat i \<in> resId ` set (concat (pTable (table c)))"
      "reachable chronIntId (table c')"
      "set (concat (pTable (table c'))) =
         insert (setId (allocId c + of_nat j) item) (set (concat (pTable (table c))))"
    by blast
  have "\<exists>d c''. 1 \<le> d \<and> d \<le> 2 ^ 30 \<and>
          chronIntIdResTable_add al' n' c' item' =
            Some (c'', setId (allocId c + of_nat j + of_nat d) item')"
    if b': "unat (nInUse (table c')) < 2 ^ 30"
      and f': "resAddr item' \<notin> resAddr ` set (concat (pTable (table c')))"
    for al' n' item'
  proof -
    from chron_add_props [OF first(6) b' f', of al' n']
    obtain j' c'' where "j' \<le> unat (nInUse (table c'))"
      and "chronIntIdResTable_add al' n' c' item' =
        Some (c'', setId (allocId c' + of_nat j') item')"
      by blast
    then have "1 \<le> Suc j'" and "Suc j' \<le> 2 ^ 30"
      and "chronIntIdResTable_add al' n' c' item' =
        Some (c'', setId (allocId c + of_nat j + of_nat (Suc j')) item')"
      using b' first(3) by (simp_all add: ac_simps)
    then show ?thesis by blast
  qed
  with first show "\<exists>j c'. j \<le> unat (nInUse (table c)) \<and>
      chronIntIdResTable_add al n c item = Some (c', setId (allocId c + of_nat j) item) \<and>
      allocId c' = allocId c + of_nat j + 1 \<and>
      allocId c + of_nat j \<notin> resId ` set (concat (pTable (table c))) \<and>
      (\<forall>i<j. allocId c + of_nat i \<in> resId ` set (concat (pTable (table c)))) \<and>
      reachable chronIntId (table c') \<and>
      set (concat (pTable (table c'))) =
        insert (setId (allocId c + of_nat j) item) (set (concat (pTable (table c)))) \<and>
      (\<forall>al' n' item'.
         unat (nInUse (table c')) < 2 ^ 30 \<and>
         resAddr item' \<notin> resAddr ` set (concat (pTable (table c'))) \<longrightarrow>
         (\<exists>d c''. 1 \<le> d \<and> d \<le> 2 ^ 30 \<and>
            chronIntIdResTable_add al' n' c' item' =
              Some (c'', setId (allocId c + of_nat j + of_nat d) item')))"
    by (intro exI [of _ j] exI [of _ c']) (simp del: set_concat)
qed

lemma chron_example_ctor:
  "resTable_ctor chronIntId True =
   Inr \<lparr>pTable = replicate 512 [], nextSplitIndex = 0, hashIxMask = 255,
        hashIxSplitMask = 511, nInUse = 0\<rparr>"
  by (simp add: chronIntId_def table_eval)

lemma chron_example_add:
  "resTable_add chronIntId True (Res 50 1)
     \<lparr>pTable = replicate 512 [], nextSplitIndex = 0, hashIxMask = 255,
      hashIxSplitMask = 511, nInUse = 0\<rparr> =
   (0, \<lparr>pTable = (replicate 512 [])[1 := [Res 50 1]], nextSplitIndex = 0, hashIxMask = 255,
        hashIxSplitMask = 511, nInUse = 1\<rparr>)"
  by (simp add: chronIntId_def table_eval)

lemma chron_example_reachable:
  "reachable chronIntId
     \<lparr>pTable = (replicate 512 [])[1 := [Res 50 1]], nextSplitIndex = 0, hashIxMask = 255,
      hashIxSplitMask = 511, nInUse = 1\<rparr>"
proof -
  have "minIndexBitWidth chronIntId < 30"
    by (simp add: chronIntId_def intId_def)
  from reachable_ctor [OF this chron_example_ctor]
  have "reachable chronIntId (snd (resTable_add chronIntId True (Res 50 1)
      \<lparr>pTable = replicate 512 [], nextSplitIndex = 0, hashIxMask = 255,
       hashIxSplitMask = 511, nInUse = 0\<rparr>))"
    by (rule reachable_add) (simp_all add: concat_replicate_Nil)
  then show ?thesis
    unfolding chron_example_add snd_conv .
qed

lemma chron_example_live:
  "concat ((replicate 512 [])[Suc 0 := [Res 50 (1::unsigned)]]) = [Res 50 1]"
  by (simp add: concat_update concat_replicate_Nil)

theorem chronIntIdResTable_add_allocates_witness:
  "reachable chronIntId
     (table \<lparr>table = \<lparr>pTable = (replicate 512 [])[1 := [Res 50 1]], nextSplitIndex = 0,
                       hashIxMask = 255, hashIxSplitMask = 511, nInUse = 1\<rparr>,
             allocId = 1\<rparr>) \<and>
   chronIntIdResTable_add (\<lambda>n. True) 0
     \<lparr>table = \<lparr>pTable = (replicate 512 [])[1 := [Res 50 1]], nextSplitIndex = 0,
               hashIxMask = 255, hashIxSplitMask = 511, nInUse = 1\<rparr>,
      allocId = 1\<rparr> (chronIntIdRes_ctor 100) =
     Some (\<lparr>table = \<lparr>pTable = (replicate 512 [])[1 := [Res 50 1], 2 := [Res 100 2]],
                       nextSplitIndex = 0, hashIxMask = 255, hashIxSplitMask = 511,
                       nInUse = 2\<rparr>,
            allocId = 3\<rparr>, Res 100 2) \<and>
   (\<exists>j c'. j \<le> 1 \<and>
      chronIntIdResTable_add (\<lambda>n. True) 0
        \<lparr>table = \<lparr>pTable = (replicate 512 [])[1 := [Res 50 1]], nextSplitIndex = 0,
                  hashIxMask = 255, hashIxSplitMask = 511, nInUse = 1\<rparr>,
         allocId = 1\<rparr> (chronIntIdRes_ctor 100) =
        Some (c', setId (1 + of_nat j) (chronIntIdRes_ctor 100)) \<and>
      allocId c' = 1 + of_nat j + 1)"
proof -
  let ?c = "\<lparr>table = \<lparr>pTable = (replicate 512 [])[1 := [Res 50 1]], nextSplitIndex = 0,
                       hashIxMask = 255, hashIxSplitMask = 511, nInUse = 1\<rparr>,
             allocId = 1\<rparr>"
  have r: "reachable chronIntId (table ?c)"
    using chron_example_reachable by simp
  have b: "unat (nInUse (table ?c)) < 2 ^ 30"
    by simp
  have f: "resAddr (chronIntIdRes_ctor 100) \<notin> resAddr ` set (concat (pTable (table ?c)))"
    by (simp add: chron_example_live chronIntIdRes_ctor_def del: set_concat)
  have e: "chronIntIdResTable_add (\<lambda>n. True) 0 ?c (chronIntIdRes_ctor 100) =
     Some (\<lparr>table = \<lparr>pTable = (replicate 512 [])[1 := [Res 50 1], 2 := [Res 100 2]],
                       nextSplitIndex = 0, hashIxMask = 255, hashIxSplitMask = 511,
                       nInUse = 2\<rparr>,
            allocId = 3\<rparr>, Res 100 2)"
    by (simp add: chronIntIdResTable_add.simps chronIntId_def table_eval setId_def
        chronIntIdRes_ctor_def)
  from chronIntIdResTable_add_allocates [OF r b f, of "\<lambda>n. True" 0]
  have "\<exists>j c'. j \<le> 1 \<and>
      chronIntIdResTable_add (\<lambda>n. True) 0 ?c (chronIntIdRes_ctor 100) =
        Some (c', setId (1 + of_nat j) (chronIntIdRes_ctor 100)) \<and>
      allocId c' = 1 + of_nat j + 1"
    by simp blast
  with r e show ?thesis by blast
qed

section \<open>Further properties\<close>

subsection \<open>lookup finds every live record\<close>

text \<open>
  In a reachable table, for an identifier class whose equal identifiers hash alike,
  \<^verbatim>\<open>lookup\<close> returns null exactly when no live record's identifier compares equal to the
  query, whatever splits have happened; and a record it returns is live and compares
  equal to the query.
\<close>

theorem resTable_lookup_complete:
  assumes reach: "reachable C t"
    and respects: "\<forall>a b. idEq C a b \<longrightarrow> idHash C a = idHash C b"
  shows "(resTable_lookup C t idv = None \<longleftrightarrow>
            (\<forall>x\<in>set (concat (pTable t)). \<not> idEq C (resId x) idv)) \<and>
         (\<forall>r. resTable_lookup C t idv = Some r \<longrightarrow>
            r \<in> set (concat (pTable t)) \<and> idEq C (resId r) idv)"
proof -
  from reachable_inv [OF reach] obtain k where inv: "resTable_inv C k t" ..
  then have sh: "resTable_shape k t"
    by (simp add: resTable_inv_def)
  have "resTable_lookup C t idv = None \<longleftrightarrow>
        (\<forall>x\<in>set (concat (pTable t)). \<not> idEq C (resId x) idv)"
    unfolding resTable_lookup_def by (rule bucket_find_None_iff [OF inv respects])
  moreover have "r \<in> set (concat (pTable t)) \<and> idEq C (resId r) idv"
    if "resTable_lookup C t idv = Some r" for r
  proof -
    from that have "r \<in> set (pTable t ! unat (resTable_hash C t idv)) \<and> idEq C (resId r) idv"
      unfolding resTable_lookup_def by (rule resTable_find_Some)
    then show ?thesis
      using in_concat_nth [OF shape_hash_range(2) [OF sh]] by blast
  qed
  ultimately show ?thesis by blast
qed

theorem resTable_lookup_complete_witness:
  "reachable (intId 1 32)
     \<lparr>pTable = [[Res 2 6], [Res 4 4, Res 1 (7::unsigned)], [Res 3 5], []], nextSplitIndex = 1,
      hashIxMask = 1, hashIxSplitMask = 3, nInUse = 4\<rparr> \<and>
   resTable_lookup (intId 1 32)
     \<lparr>pTable = [[Res 2 6], [Res 4 4, Res 1 (7::unsigned)], [Res 3 5], []], nextSplitIndex = 1,
      hashIxMask = 1, hashIxSplitMask = 3, nInUse = 4\<rparr> 5 = Some (Res 3 5) \<and>
   Res 3 5 \<in> set (concat (pTable
     \<lparr>pTable = [[Res 2 6], [Res 4 4, Res 1 (7::unsigned)], [Res 3 5], []], nextSplitIndex = 1,
      hashIxMask = 1, hashIxSplitMask = 3, nInUse = 4\<rparr>)) \<and>
   idEq (intId 1 32) (resId (Res 3 (5::unsigned))) 5"
proof -
  let ?C = "intId 1 32 :: unsigned idClass"
  let ?t = "\<lparr>pTable = [[Res 2 6], [Res 4 4, Res 1 (7::unsigned)], [Res 3 5], []],
      nextSplitIndex = 1, hashIxMask = 1, hashIxSplitMask = 3, nInUse = 4\<rparr>"
  have r: "\<forall>a b. idEq ?C a b \<longrightarrow> idHash ?C a = idHash ?C b"
    by (simp add: intId_def)
  have l: "resTable_lookup ?C ?t 5 = Some (Res 3 5)"
    by (simp add: table_eval)
  from resTable_lookup_complete [OF example_reachable4 r, of 5] l
  have "Res 3 5 \<in> set (concat (pTable ?t)) \<and> idEq ?C (resId (Res 3 (5::unsigned))) 5"
    by blast
  with example_reachable4 l show ?thesis by blast
qed

subsection \<open>Equal strings hash alike\<close>

lemma stringId_hash_loop_takeWhile:
  "stringId_hash_loop (takeWhile (\<lambda>c. c \<noteq> 0) bs) h0 h1 h2 h3 =
   stringId_hash_loop bs h0 h1 h2 h3"
  by (induction bs h0 h1 h2 h3 rule: stringId_hash_loop.induct) simp_all

text \<open>
  \<^verbatim>\<open>stringId\<close> keeps the identifier contract the table relies on: two identifiers that
  \<^verbatim>\<open>operator ==\<close> finds equal (both pointers non-null, \<^verbatim>\<open>strcmp\<close> equal) have the same
  \<^verbatim>\<open>hash ()\<close>.
\<close>

theorem stringId_eq_hash:
  assumes "idEq stringId a b"
  shows "idHash stringId a = idHash stringId b"
proof -
  from assms obtain x y where a: "a = Some x" and b: "b = Some y"
    and e: "takeWhile (\<lambda>c. c \<noteq> 0) x = takeWhile (\<lambda>c. c \<noteq> 0) y"
    by (auto simp add: stringId_def stringId_eq_def strcmp_eq_def split: option.splits)
  have "stringId_hash_loop x 0 0 0 0 = stringId_hash_loop y 0 0 0 0"
    using stringId_hash_loop_takeWhile [of x 0 0 0 0]
      stringId_hash_loop_takeWhile [of y 0 0 0 0] e by simp
  then show ?thesis
    by (simp add: stringId_def stringId_hash_def a b)
qed

theorem stringId_eq_hash_witness:
  "idEq stringId (Some [97, 98, 0, 99]) (Some [97, 98]) \<and>
   idHash stringId (Some [97, 98, 0, 99]) = idHash stringId (Some [97, 98])"
proof -
  have e: "idEq stringId (Some [97, 98, 0, 99]) (Some [97, 98])"
    by (simp add: stringId_def stringId_eq_def strcmp_eq_def)
  from stringId_eq_hash [OF e] e show ?thesis by blast
qed

subsection \<open>One split step touches one bucket and its shadow\<close>

lemma rehash_nth:
  assumes "resTable_shape k t" and "j < length (pTable t)"
  shows "set (pTable (rehash C t tmp) ! j) =
         set (pTable t ! j) \<union> {x \<in> set tmp. unat (resTable_hash C t (resId x)) = j}"
  using assms
proof (induction tmp arbitrary: t)
  case Nil
  then show ?case by simp
next
  case (Cons x tmp)
  define i where "i = unat (resTable_hash C t (resId x))"
  define t' where "t' = t\<lparr>pTable := (pTable t)[i := x # pTable t ! i]\<rparr>"
  have il: "i < length (pTable t)"
    unfolding i_def by (rule shape_hash_range(2) [OF Cons.prems(1)])
  have sh: "resTable_shape k t'"
    unfolding t'_def by (rule shape_pTable_update [OF Cons.prems(1)]) simp
  have jl: "j < length (pTable t')"
    using Cons.prems(2) by (simp add: t'_def)
  have r: "rehash C t (x # tmp) = rehash C t' tmp"
    by (simp add: t'_def i_def Let_def tsSLList_add_def)
  have h: "resTable_hash C t' = resTable_hash C t"
    by (simp add: t'_def)
  have n: "set (pTable t' ! j) = set (pTable t ! j) \<union> (if i = j then {x} else {})"
    using il by (auto simp add: t'_def nth_list_update)
  show ?case
    unfolding r Cons.IH [OF sh jl] h n using i_def by auto
qed

lemma rehash_nth_other:
  assumes "\<forall>x\<in>set tmp. unat (resTable_hash C t (resId x)) \<noteq> j"
  shows "pTable (rehash C t tmp) ! j = pTable t ! j"
  using assms
proof (induction tmp arbitrary: t)
  case Nil
  then show ?case by simp
next
  case (Cons x tmp)
  define i where "i = unat (resTable_hash C t (resId x))"
  define t' where "t' = t\<lparr>pTable := (pTable t)[i := x # pTable t ! i]\<rparr>"
  have r: "rehash C t (x # tmp) = rehash C t' tmp"
    by (simp add: t'_def i_def Let_def tsSLList_add_def)
  have h: "resTable_hash C t' = resTable_hash C t"
    by (simp add: t'_def)
  have ij: "i \<noteq> j"
    using Cons.prems by (simp add: i_def)
  have "\<forall>x\<in>set tmp. unat (resTable_hash C t' (resId x)) \<noteq> j"
    using Cons.prems by (simp add: h)
  from Cons.IH [OF this] show ?case
    unfolding r using ij by (simp add: t'_def)
qed

lemma rehash_fields:
  "nextSplitIndex (rehash C t tmp) = nextSplitIndex t"
  "length (pTable (rehash C t tmp)) = length (pTable t)"
  by (induction tmp arbitrary: t) (simp_all add: Let_def)

lemma bucketIndex_split:
  assumes "s < 2 ^ k" and "bucketIndex h (2 ^ k - 1) (2 ^ Suc k - 1) s = s"
  shows "bucketIndex h (2 ^ k - 1) (2 ^ Suc k - 1) (Suc s) = s \<or>
         bucketIndex h (2 ^ k - 1) (2 ^ Suc k - 1) (Suc s) = s + 2 ^ k"
proof -
  have "h mod 2 ^ k = s"
    using assms mod_Suc_exp_cases [of h k] unfolding bucketIndex_mod
    by (auto split: if_splits)
  then show ?thesis
    using mod_Suc_exp_cases [of h k] unfolding bucketIndex_mod by auto
qed

text \<open>
  The split step of linear hashing. In a reachable table whose doubling round is not
  complete (\<^verbatim>\<open>nextSplitIndex <= hashIxMask\<close>), \<^verbatim>\<open>splitBucket\<close> increments \<^verbatim>\<open>nextSplitIndex\<close>,
  keeps the number of chain heads, distributes the records of the chain at the old
  \<^verbatim>\<open>nextSplitIndex\<close> over that chain and its shadow chain
  \<open>nextSplitIndex + (hashIxMask + 1)\<close>, and leaves every other chain as it was: no call
  rehashes more than one bucket.
\<close>

theorem splitBucket_one_bucket:
  assumes reach: "reachable C t" and round: "\<not> nextSplitIndex t > hashIxMask t"
  shows "nextSplitIndex (resTable_splitBucket C allocOk t) = nextSplitIndex t + 1 \<and>
         length (pTable (resTable_splitBucket C allocOk t)) = length (pTable t) \<and>
         set (pTable (resTable_splitBucket C allocOk t) ! unat (nextSplitIndex t)) \<union>
         set (pTable (resTable_splitBucket C allocOk t) !
                (unat (nextSplitIndex t) + unat (hashIxMask t) + 1)) =
           set (pTable t ! unat (nextSplitIndex t)) \<and>
         (\<forall>j. j \<noteq> unat (nextSplitIndex t) \<and>
               j \<noteq> unat (nextSplitIndex t) + unat (hashIxMask t) + 1 \<longrightarrow>
               pTable (resTable_splitBucket C allocOk t) ! j = pTable t ! j)"
proof -
  from reachable_inv [OF reach] obtain k where inv: "resTable_inv C k t" ..
  define s where "s = unat (nextSplitIndex t)"
  define t1 where "t1 = t\<lparr>pTable := (pTable t)[s := []], nextSplitIndex := nextSplitIndex t + 1\<rparr>"
  define tmp where "tmp = pTable t ! s"
  have sh: "resTable_shape k t" and co: "resTable_consistent C t"
    using inv by (simp_all add: resTable_inv_def)
  have k: "k \<le> 29" and m1: "unat (hashIxMask t) = 2 ^ k - 1"
    and len: "length (pTable t) = 2 ^ Suc k"
    using sh by (simp_all add: resTable_shape_def)
  have pos: "0 < (2::nat) ^ k" by simp
  have lt: "s < 2 ^ k"
    using round pos unfolding word_less_nat_alt m1 s_def by linarith
  have shadow: "s + unat (hashIxMask t) + 1 = s + 2 ^ k"
    using pos unfolding m1 by linarith
  have p: "(2::nat) ^ k \<le> 536870912"
    using pow2_bound [OF k] by simp
  have n1: "unat (nextSplitIndex t + 1) = Suc s"
    unfolding s_def using lt p by (intro unat_inc32) (simp add: s_def)
  have sl: "s < length (pTable t)" and shl: "s + 2 ^ k < length (pTable t)"
    using lt len by simp_all
  have sh1: "resTable_shape k t1"
    using sh lt n1 by (simp add: resTable_shape_def t1_def s_def)
  have eq: "resTable_splitBucket C allocOk t = rehash C t1 tmp"
    using round
    by (simp add: resTable_splitBucket_def splitOne_def tsSLList_transfer_def t1_def s_def tmp_def)
  have h1: "unat (resTable_hash C t1 (resId x)) = s \<or> unat (resTable_hash C t1 (resId x)) = s + 2 ^ k"
    if "x \<in> set tmp" for x
  proof -
    have "unat (resTable_hash C t (resId x)) = s"
      using that co sl by (simp add: resTable_consistent_def tmp_def)
    then have "bucketIndex (unat (idHash C (resId x))) (2 ^ k - 1) (2 ^ Suc k - 1) s = s"
      unfolding shape_hash [OF sh] s_def .
    from bucketIndex_split [OF lt this] show ?thesis
      unfolding shape_hash [OF sh1] using n1 by (simp add: t1_def)
  qed
  have empty: "pTable t ! (s + 2 ^ k) = []"
  proof (rule ccontr)
    assume "pTable t ! (s + 2 ^ k) \<noteq> []"
    then obtain r where "r \<in> set (pTable t ! (s + 2 ^ k))"
      by (cases "pTable t ! (s + 2 ^ k)") auto
    then have "unat (resTable_hash C t (resId r)) = s + 2 ^ k"
      using co shl by (simp add: resTable_consistent_def)
    with shape_hash_range(1) [OF sh, of C "resId r"] show False
      by (simp add: s_def)
  qed
  have a: "nextSplitIndex (rehash C t1 tmp) = nextSplitIndex t + 1"
    and b: "length (pTable (rehash C t1 tmp)) = length (pTable t)"
    by (simp_all add: rehash_fields t1_def)
  have c: "set (pTable (rehash C t1 tmp) ! s) \<union> set (pTable (rehash C t1 tmp) ! (s + 2 ^ k)) =
      set tmp"
  proof -
    have "set (pTable (rehash C t1 tmp) ! s) =
        {x \<in> set tmp. unat (resTable_hash C t1 (resId x)) = s}"
      using rehash_nth [OF sh1, of s C tmp] sl by (simp add: t1_def)
    moreover have "set (pTable (rehash C t1 tmp) ! (s + 2 ^ k)) =
        {x \<in> set tmp. unat (resTable_hash C t1 (resId x)) = s + 2 ^ k}"
      using rehash_nth [OF sh1, of "s + 2 ^ k" C tmp] shl empty by (simp add: t1_def)
    ultimately show ?thesis
      using h1 by auto
  qed
  have d: "pTable (rehash C t1 tmp) ! j = pTable t ! j" if "j \<noteq> s" and "j \<noteq> s + 2 ^ k" for j
  proof -
    have "\<forall>x\<in>set tmp. unat (resTable_hash C t1 (resId x)) \<noteq> j"
      using h1 that by auto
    from rehash_nth_other [OF this] show ?thesis
      using that(1) by (simp add: t1_def)
  qed
  show ?thesis
    unfolding eq shadow s_def [symmetric] using a b c d by (simp add: tmp_def)
qed

theorem splitBucket_one_bucket_witness:
  "reachable (intId 1 32)
     \<lparr>pTable = [[Res 3 5, Res 2 6], [Res 1 (7::unsigned)], [], []], nextSplitIndex = 0,
      hashIxMask = 1, hashIxSplitMask = 3, nInUse = 3\<rparr> \<and>
   \<not> nextSplitIndex
     \<lparr>pTable = [[Res 3 5, Res 2 6], [Res 1 (7::unsigned)], [], []], nextSplitIndex = 0,
      hashIxMask = 1, hashIxSplitMask = 3, nInUse = 3\<rparr> >
     hashIxMask
     \<lparr>pTable = [[Res 3 5, Res 2 6], [Res 1 (7::unsigned)], [], []], nextSplitIndex = 0,
      hashIxMask = 1, hashIxSplitMask = 3, nInUse = 3\<rparr> \<and>
   resTable_splitBucket (intId 1 32) True
     \<lparr>pTable = [[Res 3 5, Res 2 6], [Res 1 (7::unsigned)], [], []], nextSplitIndex = 0,
      hashIxMask = 1, hashIxSplitMask = 3, nInUse = 3\<rparr> =
     \<lparr>pTable = [[Res 2 6], [Res 1 7], [Res 3 5], []], nextSplitIndex = 1,
      hashIxMask = 1, hashIxSplitMask = 3, nInUse = 3\<rparr> \<and>
   nextSplitIndex (resTable_splitBucket (intId 1 32) True
     \<lparr>pTable = [[Res 3 5, Res 2 6], [Res 1 (7::unsigned)], [], []], nextSplitIndex = 0,
      hashIxMask = 1, hashIxSplitMask = 3, nInUse = 3\<rparr>) = 1"
proof -
  let ?t = "\<lparr>pTable = [[Res 3 5, Res 2 6], [Res 1 (7::unsigned)], [], []], nextSplitIndex = 0,
      hashIxMask = 1, hashIxSplitMask = 3, nInUse = 3\<rparr>"
  have r: "\<not> nextSplitIndex ?t > hashIxMask ?t"
    by simp
  have e: "resTable_splitBucket (intId 1 32) True ?t =
     \<lparr>pTable = [[Res 2 6], [Res 1 7], [Res 3 5], []], nextSplitIndex = 1,
      hashIxMask = 1, hashIxSplitMask = 3, nInUse = 3\<rparr>"
    by (simp add: table_eval)
  from splitBucket_one_bucket [OF example_reachable3 r, of True]
  have "nextSplitIndex (resTable_splitBucket (intId 1 32) True ?t) = 1"
    by simp
  with example_reachable3 r e show ?thesis by blast
qed

subsection \<open>verify passes on every reachable table\<close>

lemma unused_chain_empty:
  assumes inv: "resTable_inv C k t"
    and j: "unat (resTable_tableSize t) \<le> j" "j < length (pTable t)"
  shows "pTable t ! j = []"
proof (rule ccontr)
  have sh: "resTable_shape k t" and co: "resTable_consistent C t"
    using inv by (simp_all add: resTable_inv_def)
  assume "pTable t ! j \<noteq> []"
  then obtain r where "r \<in> set (pTable t ! j)"
    by (cases "pTable t ! j") auto
  then have "unat (resTable_hash C t (resId r)) = j"
    using co j(2) by (simp add: resTable_consistent_def)
  with shape_hash_range(1) [OF sh, of C "resId r"] j(1) show False
    unfolding unat_tableSize [OF sh] by simp
qed

lemma concat_all_Nil: "(\<forall>x\<in>set xs. x = []) \<Longrightarrow> concat xs = []"
  by (induction xs) simp_all

text \<open>
  The assertions of \<^verbatim>\<open>verify ()\<close> hold in every reachable table: they are the source's own
  statement of bucket consistency and of the record count.
\<close>

theorem resTable_verify_reachable:
  assumes "reachable C t"
  shows "resTable_verify C t"
proof -
  from reachable_inv [OF assms] obtain k where inv: "resTable_inv C k t" ..
  have sh: "resTable_shape k t" and co: "resTable_consistent C t"
    and cnt: "unat (nInUse t) = length (concat (pTable t))"
    using inv by (simp_all add: resTable_inv_def)
  define N where "N = unat (resTable_tableSize t)"
  have NL: "N \<le> length (pTable t)"
    using sh unfolding N_def unat_tableSize [OF sh] by (simp add: resTable_shape_def)
  have hashes: "list_all
      (\<lambda>(i, chain). list_all (\<lambda>pItem. resTable_hash C t (resId pItem) = of_nat i) chain)
      (enumerate 0 (take N (pTable t)))"
    unfolding list_all_iff
  proof (intro ballI, clarify)
    fix i chain pItem
    assume e: "(i, chain) \<in> set (enumerate 0 (take N (pTable t)))" and p: "pItem \<in> set chain"
    from e have i: "i < N" and c: "chain = pTable t ! i"
      using NL by (auto simp add: in_set_enumerate_eq)
    then have "unat (resTable_hash C t (resId pItem)) = i"
      using co p NL by (simp add: resTable_consistent_def)
    then have "of_nat (unat (resTable_hash C t (resId pItem))) = (of_nat i :: resTableIndex)"
      by simp
    then show "resTable_hash C t (resId pItem) = of_nat i"
      by simp
  qed
  have "concat (drop N (pTable t)) = []"
  proof (rule concat_all_Nil, rule ballI)
    fix x
    assume "x \<in> set (drop N (pTable t))"
    then obtain j where "j < length (pTable t) - N" and "x = pTable t ! (N + j)"
      by (auto simp add: in_set_conv_nth)
    then show "x = []"
      using unused_chain_empty [OF inv, of "N + j"] by (simp add: N_def)
  qed
  then have "concat (pTable t) = concat (take N (pTable t))"
    using concat_append [of "take N (pTable t)" "drop N (pTable t)"] by simp
  then have "sum_list (map length (take N (pTable t))) = unat (nInUse t)"
    by (simp add: cnt length_concat)
  then have total: "(of_nat (sum_list (map length (take N (pTable t)))) :: unsigned) = nInUse t"
    by simp
  show ?thesis
    unfolding resTable_verify_def Let_def N_def [symmetric] using hashes total by simp
qed

theorem resTable_verify_reachable_witness:
  "reachable (intId 1 32)
     \<lparr>pTable = [[Res 2 6], [Res 4 4, Res 1 (7::unsigned)], [Res 3 5], []], nextSplitIndex = 1,
      hashIxMask = 1, hashIxSplitMask = 3, nInUse = 4\<rparr> \<and>
   resTable_verify (intId 1 32)
     \<lparr>pTable = [[Res 2 6], [Res 4 4, Res 1 (7::unsigned)], [Res 3 5], []], nextSplitIndex = 1,
      hashIxMask = 1, hashIxSplitMask = 3, nInUse = 4\<rparr>"
  using resTable_verify_reachable [OF example_reachable4] example_reachable4 by blast

lemma resTable_verify_example_fails:
  "\<not> resTable_verify (intId 1 32)
     \<lparr>pTable = [[Res 2 6, Res 3 5], [Res 4 4, Res 1 (7::unsigned)], [], []], nextSplitIndex = 1,
      hashIxMask = 1, hashIxSplitMask = 3, nInUse = 4\<rparr>"
  by (simp add: resTable_verify_def table_eval)

end
